theory Spec2Isabelle
  imports Main
begin

section \<open>Shared vocabulary\<close>

text \<open>
  The repository holds two React components: \<open>GridBuilder\<close> (the authoring tool that
  places words on a 20 x 20 canvas) and \<open>PlayCrossword\<close> (the player). Both are modelled
  by explicit state passing: the \<open>useState\<close> variables of a component are the fields of a
  record, and an event handler is a function from the state of the render it closes over
  to the state after the handler's \<open>set...\<close> calls.

  JavaScript numbers are modelled as \<open>int\<close> (every number the components compute with is
  an array index, a length or a sum of the two). A JavaScript string is a sequence of
  UTF-16 code units; it is modelled as \<open>string\<close>, one \<open>char\<close> standing for one code unit.
  The union type \<open>"horizontal" | "vertical"\<close> is a datatype. Notification calls
  (\<open>alert\<close>, \<open>toast\<close>, \<open>console.error\<close>) change no state and are not modelled.
\<close>

datatype direction = Horizontal | Vertical

datatype error = TypeError | RangeError

text \<open>
  \<open>xs[i]\<close> for a JavaScript array and an integer index: the element when
  \<open>0 \<le> i < xs.length\<close>, \<open>undefined\<close> (here \<open>None\<close>) otherwise.
\<close>

definition at_index :: "'a list \<Rightarrow> int \<Rightarrow> 'a option" where
  "at_index xs i = (if 0 \<le> i \<and> i < int (length xs) then Some (xs ! nat i) else None)"

text \<open>
  \<open>for (let i = 0; i < n; i++)\<close>: the offsets the loop variable runs through. For
  \<open>n \<le> 0\<close> the body never runs.
\<close>

definition offsets :: "int \<Rightarrow> int list" where
  "offsets n = map int [0..<nat n]"

text \<open>
  A loop (\<open>for\<close> or \<open>forEach\<close>) whose body can throw: the first exception ends the loop.
\<close>

fun foldE :: "('a \<Rightarrow> 's \<Rightarrow> error + 's) \<Rightarrow> 'a list \<Rightarrow> 's \<Rightarrow> error + 's" where
  "foldE f [] s = Inr s"
| "foldE f (x # xs) s = (case f x s of Inl e \<Rightarrow> Inl e | Inr s' \<Rightarrow> foldE f xs s')"

text \<open>
  The cell at offset \<open>i\<close> of a span that starts at \<open>(r, c)\<close>: the expressions
  \<open>dir === "vertical" ? r + i : r\<close> and \<open>dir === "horizontal" ? c + i : c\<close> that every
  loop over a span computes.
\<close>

definition spanRow :: "direction \<Rightarrow> int \<Rightarrow> int \<Rightarrow> int" where
  "spanRow dir r i = (if dir = Vertical then r + i else r)"

definition spanCol :: "direction \<Rightarrow> int \<Rightarrow> int \<Rightarrow> int" where
  "spanCol dir c i = (if dir = Horizontal then c + i else c)"

section \<open>GridBuilder: the authoring component\<close>

record GridWord =
  gw_word :: string
  gw_clue :: string
  gw_row :: int
  gw_col :: int
  gw_direction :: direction
  gw_number :: int

record InputWord =
  iw_word :: string
  iw_clue :: string

record EditorState =
  placedWords :: "GridWord list"
  availableWords :: "string list"
  selectedWordStr :: "string option"
  ed_direction :: direction

definition GRID_SIZE :: int where
  "GRID_SIZE = 20"

text \<open>
  \<open>getCharAt(r, c)\<close>: the loop over \<open>placedWords\<close> returns at the first word whose span
  holds the cell; \<open>null\<close> is \<open>None\<close>. The index into \<open>pw.word\<close> is in range in both
  branches, by the test that guards it.
\<close>

fun getCharAt :: "GridWord list \<Rightarrow> int \<Rightarrow> int \<Rightarrow> char option" where
  "getCharAt [] r c = None"
| "getCharAt (pw # pws) r c =
     (if gw_direction pw = Horizontal then
        (if r = gw_row pw \<and> c \<ge> gw_col pw \<and> c < gw_col pw + int (length (gw_word pw))
         then Some (gw_word pw ! nat (c - gw_col pw))
         else getCharAt pws r c)
      else
        (if c = gw_col pw \<and> r \<ge> gw_row pw \<and> r < gw_row pw + int (length (gw_word pw))
         then Some (gw_word pw ! nat (r - gw_row pw))
         else getCharAt pws r c))"

text \<open>
  The overlap loop of \<open>canPlaceWord\<close>, over the offsets \<open>i\<close> still to visit. The test
  \<open>existingChar && existingChar !== word[i]\<close> is a null test (a character of a word is
  a non-empty string, hence truthy) followed by strict, case-sensitive inequality.
\<close>

fun canPlaceWord_loop ::
  "GridWord list \<Rightarrow> string \<Rightarrow> int \<Rightarrow> int \<Rightarrow> direction \<Rightarrow> nat list \<Rightarrow> bool" where
  "canPlaceWord_loop placed word r c dir [] = True"
| "canPlaceWord_loop placed word r c dir (i # rest) =
     (let currentRow = spanRow dir r (int i);
          currentCol = spanCol dir c (int i)
      in case getCharAt placed currentRow currentCol of
           None \<Rightarrow> canPlaceWord_loop placed word r c dir rest
         | Some existingChar \<Rightarrow>
             if existingChar \<noteq> word ! i then False
             else canPlaceWord_loop placed word r c dir rest)"

definition canPlaceWord :: "GridWord list \<Rightarrow> string \<Rightarrow> int \<Rightarrow> int \<Rightarrow> direction \<Rightarrow> bool" where
  "canPlaceWord placed word r c dir =
     (if dir = Horizontal \<and> c + int (length word) > GRID_SIZE then False
      else if dir = Vertical \<and> r + int (length word) > GRID_SIZE then False
      else canPlaceWord_loop placed word r c dir [0..<length word])"

text \<open>
  The \<open>useEffect\<close> that reconciles the props: \<open>validPlaced\<close> is its \<open>forEach\<close> over
  \<open>prePlacedWords\<close>, with the list \<open>validPlacedWords\<close> built so far as accumulator.
\<close>

fun validPlaced :: "InputWord list \<Rightarrow> GridWord list \<Rightarrow> GridWord list \<Rightarrow> GridWord list" where
  "validPlaced initialWords [] acc = acc"
| "validPlaced initialWords (pw # pws) acc =
     (case find (\<lambda>iw. iw_word iw = gw_word pw) initialWords of
        None \<Rightarrow> validPlaced initialWords pws acc
      | Some matchingInput \<Rightarrow>
          validPlaced initialWords pws
            (acc @ [pw\<lparr>gw_clue := iw_clue matchingInput, gw_number := int (length acc) + 1\<rparr>]))"

definition syncWithProps :: "InputWord list \<Rightarrow> GridWord list \<Rightarrow> EditorState \<Rightarrow> EditorState" where
  "syncWithProps initialWords prePlacedWords st =
     (let validPlacedWords = validPlaced initialWords prePlacedWords [];
          placedWordStrings = set (map gw_word validPlacedWords);
          remainingWords = filter (\<lambda>w. w \<notin> placedWordStrings) (map iw_word initialWords)
      in st\<lparr>placedWords := validPlacedWords, availableWords := remainingWords\<rparr>)"

definition initialEditorState :: EditorState where
  "initialEditorState =
     \<lparr>placedWords = [], availableWords = [], selectedWordStr = None,
      ed_direction = Horizontal\<rparr>"

text \<open>
  \<open>handleCellClick\<close> of GridBuilder. \<open>!selectedWordStr\<close> holds for \<open>null\<close> and for the
  empty string.
\<close>

definition GridBuilder_handleCellClick ::
  "InputWord list \<Rightarrow> EditorState \<Rightarrow> int \<Rightarrow> int \<Rightarrow> EditorState" where
  "GridBuilder_handleCellClick initialWords st r c =
     (case selectedWordStr st of
        None \<Rightarrow> st
      | Some s \<Rightarrow>
          if s = [] then st
          else if \<not> canPlaceWord (placedWords st) s r c (ed_direction st) then st
          else (case find (\<lambda>w. iw_word w = s) initialWords of
                  None \<Rightarrow> st
                | Some fullWordData \<Rightarrow>
                    st\<lparr>placedWords := placedWords st @
                         [\<lparr>gw_word = s, gw_clue = iw_clue fullWordData, gw_row = r, gw_col = c,
                           gw_direction = ed_direction st,
                           gw_number = int (length (placedWords st)) + 1\<rparr>],
                       availableWords := filter (\<lambda>w. w \<noteq> s) (availableWords st),
                       selectedWordStr := None\<rparr>))"

text \<open>
  \<open>handleRemovePlacedWord(index)\<close>. \<open>removed.word\<close> throws when \<open>placedWords[index]\<close>
  is undefined; by then \<open>setPlacedWords\<close> has been called, so the renumbered list is
  kept and only the update of \<open>availableWords\<close> is lost.
\<close>

definition renumber :: "GridWord list \<Rightarrow> GridWord list" where
  "renumber ps = map (\<lambda>(i, pw). pw\<lparr>gw_number := int i + 1\<rparr>) (enumerate 0 ps)"

definition handleRemovePlacedWord :: "EditorState \<Rightarrow> int \<Rightarrow> EditorState \<times> error option" where
  "handleRemovePlacedWord st index =
     (let newPlaced = map snd (filter (\<lambda>(i, pw). int i \<noteq> index) (enumerate 0 (placedWords st)));
          reorderedPlaced = renumber newPlaced
      in case at_index (placedWords st) index of
           None \<Rightarrow> (st\<lparr>placedWords := reorderedPlaced\<rparr>, Some TypeError)
         | Some removed \<Rightarrow>
             (st\<lparr>placedWords := reorderedPlaced,
                 availableWords := availableWords st @ [gw_word removed]\<rparr>, None))"

text \<open>The states the component can be in: every way its state variables are set.\<close>

inductive editor_reachable :: "EditorState \<Rightarrow> bool" where
  er_init: "editor_reachable initialEditorState"
| er_sync: "editor_reachable st \<Longrightarrow> editor_reachable (syncWithProps iws pws st)"
| er_click: "editor_reachable st \<Longrightarrow> editor_reachable (GridBuilder_handleCellClick iws st r c)"
| er_remove: "editor_reachable st \<Longrightarrow> editor_reachable (fst (handleRemovePlacedWord st index))"
| er_select: "editor_reachable st \<Longrightarrow> editor_reachable (st\<lparr>selectedWordStr := Some w\<rparr>)"
| er_toggle: "editor_reachable st \<Longrightarrow>
     editor_reachable (st\<lparr>ed_direction :=
        (if ed_direction st = Horizontal then Vertical else Horizontal)\<rparr>)"

text \<open>The span of a placed word, as \<open>getCharAt\<close> tests it, and the character it holds there.\<close>

definition gw_covers :: "GridWord \<Rightarrow> int \<Rightarrow> int \<Rightarrow> bool" where
  "gw_covers pw r c =
     (if gw_direction pw = Horizontal
      then r = gw_row pw \<and> gw_col pw \<le> c \<and> c < gw_col pw + int (length (gw_word pw))
      else c = gw_col pw \<and> gw_row pw \<le> r \<and> r < gw_row pw + int (length (gw_word pw)))"

definition gw_char :: "GridWord \<Rightarrow> int \<Rightarrow> int \<Rightarrow> char" where
  "gw_char pw r c =
     (if gw_direction pw = Horizontal then gw_word pw ! nat (c - gw_col pw)
      else gw_word pw ! nat (r - gw_row pw))"

definition dense :: "GridWord list \<Rightarrow> bool" where
  "dense ps = (map gw_number ps = map (\<lambda>i. int i + 1) [0..<length ps])"

text \<open>
  The placed-word lists that arise when every word is placed through \<open>handleCellClick\<close>
  (so through \<open>canPlaceWord\<close>), starting from the empty canvas, with removals in between.
  Lists loaded from \<open>prePlacedWords\<close> are not validated by the component and are not
  covered by this predicate.
\<close>

inductive placedWithoutConflict :: "GridWord list \<Rightarrow> bool" where
  pwc_empty: "placedWithoutConflict []"
| pwc_place: "placedWithoutConflict (placedWords st) \<Longrightarrow>
     placedWithoutConflict (placedWords (GridBuilder_handleCellClick iws st r c))"
| pwc_remove: "placedWithoutConflict (placedWords st) \<Longrightarrow>
     placedWithoutConflict (placedWords (fst (handleRemovePlacedWord st index)))"

text \<open>Any two placed words hold the same character wherever their spans meet.\<close>

definition agree :: "GridWord list \<Rightarrow> bool" where
  "agree ps = (\<forall>p\<in>set ps. \<forall>q\<in>set ps. \<forall>r c.
      gw_covers p r c \<and> gw_covers q r c \<longrightarrow> gw_char p r c = gw_char q r c)"

subsection \<open>The overlap rule in the words of the specification\<close>

text \<open>
  The specification says that a placement fails when the character already at a covered
  cell differs from \<open>word[i]\<close> case-insensitively. \<open>spec_overlapConflict\<close> follows these
  words (letters compared after mapping \<open>a\<close>..\<open>z\<close> to \<open>A\<close>..\<open>Z\<close>), to be compared with
  what \<open>canPlaceWord\<close> computes.
\<close>

definition toUpperAscii :: "char \<Rightarrow> nat" where
  "toUpperAscii ch =
     (let n = (of_char ch :: nat) in if 97 \<le> n \<and> n \<le> 122 then n - 32 else n)"

definition differsCaseInsensitively :: "char \<Rightarrow> char \<Rightarrow> bool" where
  "differsCaseInsensitively a b = (toUpperAscii a \<noteq> toUpperAscii b)"

definition spec_overlapConflict :: "GridWord list \<Rightarrow> string \<Rightarrow> int \<Rightarrow> int \<Rightarrow> direction \<Rightarrow> bool" where
  "spec_overlapConflict placed word r c dir =
     list_ex (\<lambda>i. list_ex (\<lambda>pw.
         gw_covers pw (spanRow dir r (int i)) (spanCol dir c (int i)) \<and>
         differsCaseInsensitively
           (gw_char pw (spanRow dir r (int i)) (spanCol dir c (int i))) (word ! i)) placed)
       [0..<length word]"

text \<open>The two bounds tests at the head of \<open>canPlaceWord\<close>.\<close>

definition boundsFail :: "string \<Rightarrow> int \<Rightarrow> int \<Rightarrow> direction \<Rightarrow> bool" where
  "boundsFail word r c dir =
     ((dir = Horizontal \<and> c + int (length word) > GRID_SIZE) \<or>
      (dir = Vertical \<and> r + int (length word) > GRID_SIZE))"

subsection \<open>Concrete placements\<close>

definition wordA :: GridWord where
  "wordA = \<lparr>gw_word = ''A'', gw_clue = ''first letter'', gw_row = 0, gw_col = 0,
            gw_direction = Horizontal, gw_number = 1\<rparr>"

definition exampleWords :: "InputWord list" where
  "exampleWords = [\<lparr>iw_word = ''CAT'', iw_clue = ''pet''\<rparr>, \<lparr>iw_word = ''CAR'', iw_clue = ''vehicle''\<rparr>]"

definition catPlaced :: "GridWord list" where
  "catPlaced = [\<lparr>gw_word = ''CAT'', gw_clue = ''pet'', gw_row = 0, gw_col = 0,
                 gw_direction = Horizontal, gw_number = 1\<rparr>]"

definition catCarPlaced :: "GridWord list" where
  "catCarPlaced = catPlaced @ [\<lparr>gw_word = ''CAR'', gw_clue = ''vehicle'', gw_row = 0, gw_col = 0,
                 gw_direction = Vertical, gw_number = 2\<rparr>]"

definition catState :: EditorState where
  "catState = \<lparr>placedWords = catPlaced, availableWords = [''CAR''], selectedWordStr = Some ''CAR'',
      ed_direction = Vertical\<rparr>"


section \<open>PlayCrossword: the player component\<close>

record WordData =
  wd_id :: string
  wd_number :: int
  wd_direction :: direction
  row_index :: int
  col_index :: int
  wd_length :: int
  wd_clue :: string

record GameData =
  game_id :: string
  game_name :: string
  rows :: int
  cols :: int
  words :: "WordData list"

text \<open>The optional fields \<open>number\<close> and \<open>isCorrect\<close> are \<open>None\<close> when undefined.\<close>

record CellData =
  isActive :: bool
  cell_char :: string
  cell_number :: "int option"
  wordIds :: "string list"
  isCorrect :: "bool option"

record CheckResult =
  word_id :: string
  is_correct :: bool

record Answer =
  ans_word_id :: string
  user_answer :: string

text \<open>
  The state variables of the component. \<open>focusRequest\<close> stands for the DOM effect of
  \<open>inputRefs.current[r][c]?.focus()\<close>: the cell whose input was last asked to take the
  focus. (\<open>inputRefs\<close> is allocated by \<open>initializeGrid\<close> with the dimensions of the grid.)
  The \<open>loading\<close> flag, which no handler below reads or writes, is left out.
\<close>

record PlayState =
  game :: "GameData option"
  grid :: "CellData list list"
  submitting :: bool
  timer :: int
  isPaused :: bool
  isFinished :: bool
  selectedCell :: "(int \<times> int) option"
  play_direction :: direction
  focusRequest :: "(int \<times> int) option"

text \<open>
  \<open>grid[r][c]\<close> where both the row and the cell exist. Reading a property of
  \<open>grid[r][c]\<close> throws a TypeError when the row is missing (\<open>undefined[c]\<close>) and also
  when only the cell is (\<open>undefined.char\<close>).
\<close>

definition cellAt :: "CellData list list \<Rightarrow> int \<Rightarrow> int \<Rightarrow> CellData option" where
  "cellAt g r c = (case at_index g r of None \<Rightarrow> None | Some row \<Rightarrow> at_index row c)"

text \<open>\<open>newGrid[r][c] = cell\<close> for a cell that exists.\<close>

definition setCell :: "CellData list list \<Rightarrow> int \<Rightarrow> int \<Rightarrow> CellData \<Rightarrow> CellData list list" where
  "setCell g r c cell = g[nat r := (g ! nat r)[nat c := cell]]"

subsection \<open>Building the grid\<close>

text \<open>
  \<open>Array(n)\<close> throws a RangeError unless \<open>n\<close> is an integer with \<open>0 \<le> n < 2^32\<close>.
  \<open>Array(data.cols)\<close> is evaluated once per row, so not at all when there is no row.
\<close>

definition validArrayLength :: "int \<Rightarrow> bool" where
  "validArrayLength n = (0 \<le> n \<and> n < 4294967296)"

definition emptyCell :: CellData where
  "emptyCell = \<lparr>isActive = False, cell_char = [], cell_number = None, wordIds = [],
                isCorrect = None\<rparr>"

definition blankGrid :: "int \<Rightarrow> int \<Rightarrow> error + CellData list list" where
  "blankGrid nrows ncols =
     (if \<not> validArrayLength nrows then Inl RangeError
      else if 0 < nrows \<and> \<not> validArrayLength ncols then Inl RangeError
      else Inr (replicate (nat nrows) (replicate (nat ncols) emptyCell)))"

text \<open>
  The body of the inner loop of \<open>initializeGrid\<close>. Past the guard
  \<open>r < data.rows && c < data.cols\<close>, a negative \<open>r\<close> makes \<open>newGrid[r][c]\<close> throw, and
  a negative \<open>c\<close> makes the copy \<open>[...cell.wordIds, word.id]\<close> throw (the cell read is
  undefined, so is its \<open>wordIds\<close>): a TypeError either way.
\<close>

definition markCell :: "GameData \<Rightarrow> WordData \<Rightarrow> int \<Rightarrow> CellData list list \<Rightarrow> error + CellData list list" where
  "markCell data word i newGrid =
     (let r = spanRow (wd_direction word) (row_index word) i;
          c = spanCol (wd_direction word) (col_index word) i
      in if r < rows data \<and> c < cols data then
           (case cellAt newGrid r c of
              None \<Rightarrow> Inl TypeError
            | Some old \<Rightarrow>
                Inr (setCell newGrid r c
                  (old\<lparr>isActive := True,
                       wordIds := wordIds old @ [wd_id word],
                       cell_number := (if i = 0 then Some (wd_number word) else cell_number old)\<rparr>)))
         else Inr newGrid)"

definition initializeGrid :: "GameData \<Rightarrow> error + CellData list list" where
  "initializeGrid data =
     (case blankGrid (rows data) (cols data) of
        Inl e \<Rightarrow> Inl e
      | Inr newGrid \<Rightarrow>
          foldE (\<lambda>word. foldE (markCell data word) (offsets (wd_length word))) (words data) newGrid)"

subsection \<open>Focus navigation\<close>

text \<open>\<open>game?.rows || 0\<close> and \<open>game?.cols || 0\<close>.\<close>

definition gameRows :: "GameData option \<Rightarrow> int" where
  "gameRows g = (case g of None \<Rightarrow> 0 | Some d \<Rightarrow> rows d)"

definition gameCols :: "GameData option \<Rightarrow> int" where
  "gameCols g = (case g of None \<Rightarrow> 0 | Some d \<Rightarrow> cols d)"

text \<open>
  The local variables of \<open>moveFocus\<close>, and its \<open>while\<close> loop as a function from their
  values at the loop head to their values at the exit. \<open>break\<close> leaves the loop with
  the position advanced and \<open>attempts\<close> not incremented. \<open>grid[currR][currC]?.isActive\<close>
  throws when the row is missing and is falsy when only the cell is.
\<close>

record FocusScan =
  currR :: int
  currC :: int
  found :: bool
  attempts :: int

function moveFocus_loop ::
  "GameData option \<Rightarrow> CellData list list \<Rightarrow> direction \<Rightarrow> int \<Rightarrow> FocusScan \<Rightarrow> error + FocusScan" where
  "moveFocus_loop gm g dir step s =
     (if \<not> found s \<and> attempts s < 50 then
        (let s1 = (if dir = Horizontal then s\<lparr>currC := currC s + step\<rparr>
                   else s\<lparr>currR := currR s + step\<rparr>)
         in if currR s1 < 0 \<or> currR s1 \<ge> gameRows gm \<or> currC s1 < 0 \<or> currC s1 \<ge> gameCols gm
            then Inr s1
            else (case at_index g (currR s1) of
                    None \<Rightarrow> Inl TypeError
                  | Some row \<Rightarrow>
                      moveFocus_loop gm g dir step
                        ((case at_index row (currC s1) of
                            None \<Rightarrow> s1
                          | Some cell \<Rightarrow> if isActive cell then s1\<lparr>found := True\<rparr> else s1)
                         \<lparr>attempts := attempts s + 1\<rparr>)))
      else Inr s)"
  by pat_completeness auto
termination
  by (relation "measure (\<lambda>(gm, g, dir, step, s). if found s then 0 else 1 + nat (50 - attempts s))")
     (auto split: option.splits)

declare moveFocus_loop.simps [simp del]

text \<open>The loop variables as \<open>moveFocus(r, c, ...)\<close> initialises them.\<close>

definition scanStart :: "int \<Rightarrow> int \<Rightarrow> FocusScan" where
  "scanStart r c = \<lparr>currR = r, currC = c, found = False, attempts = 0\<rparr>"

text \<open>
  \<open>moveFocus\<close> reads \<open>game\<close>, \<open>grid\<close> and \<open>direction\<close> from the render it closes over
  (\<open>snap\<close>) and adds its updates to the pending state \<open>st\<close>. The loop sets the focus and
  the selection in the iteration that finds an active cell, which is its last one.
\<close>

definition moveFocus ::
  "PlayState \<Rightarrow> int \<Rightarrow> int \<Rightarrow> int \<Rightarrow> direction option \<Rightarrow> PlayState \<Rightarrow> PlayState \<times> error option" where
  "moveFocus snap r c step overrideDir st =
     (let dir = (case overrideDir of Some d \<Rightarrow> d | None \<Rightarrow> play_direction snap)
      in case moveFocus_loop (game snap) (grid snap) dir step (scanStart r c) of
           Inl e \<Rightarrow> (st, Some e)
         | Inr s \<Rightarrow>
             if found s
             then (st\<lparr>selectedCell := Some (currR s, currC s),
                      focusRequest := Some (currR s, currC s)\<rparr>, None)
             else (st, None))"

subsection \<open>Input handlers\<close>

text \<open>
  A handler returns the state after its updates and the exception it threw, if any
  (updates made before a throw are kept). \<open>String.prototype.toUpperCase\<close> is a
  parameter of \<open>handleInputChange\<close>; \<open>val.slice(-1)\<close> is the last code unit of \<open>val\<close>,
  or the empty string.
\<close>

definition lastUnit :: "string \<Rightarrow> string" where
  "lastUnit val = (if val = [] then [] else [last val])"

definition handleInputChange ::
  "(string \<Rightarrow> string) \<Rightarrow> PlayState \<Rightarrow> int \<Rightarrow> int \<Rightarrow> string \<Rightarrow> PlayState \<times> error option" where
  "handleInputChange toUpperCase st r c val =
     (case cellAt (grid st) r c of
        None \<Rightarrow> (st, Some TypeError)
      | Some cell \<Rightarrow>
          if \<not> isActive cell \<or> isPaused st \<or> isFinished st then (st, None)
          else (let ch = toUpperCase (lastUnit val);
                    newGrid = setCell (grid st) r c (cell\<lparr>cell_char := ch\<rparr>);
                    st1 = st\<lparr>grid := newGrid\<rparr>
                in if ch \<noteq> [] then moveFocus st r c 1 None st1 else (st1, None)))"

definition handleKeyDown :: "PlayState \<Rightarrow> string \<Rightarrow> int \<Rightarrow> int \<Rightarrow> PlayState \<times> error option" where
  "handleKeyDown st key r c =
     (if isPaused st \<or> isFinished st then (st, None)
      else if key = ''Backspace'' then
        (case cellAt (grid st) r c of
           None \<Rightarrow> (st, Some TypeError)
         | Some cell \<Rightarrow> if cell_char cell = [] then moveFocus st r c (- 1) None st else (st, None))
      else if key = ''ArrowRight'' then
        moveFocus st r c 1 (Some Horizontal) (st\<lparr>play_direction := Horizontal\<rparr>)
      else if key = ''ArrowDown'' then
        moveFocus st r c 1 (Some Vertical) (st\<lparr>play_direction := Vertical\<rparr>)
      else (st, None))"

definition PlayCrossword_handleCellClick :: "PlayState \<Rightarrow> int \<Rightarrow> int \<Rightarrow> PlayState \<times> error option" where
  "PlayCrossword_handleCellClick st r c =
     (case cellAt (grid st) r c of
        None \<Rightarrow> (st, Some TypeError)
      | Some cell \<Rightarrow>
          if \<not> isActive cell \<or> isPaused st \<or> isFinished st then (st, None)
          else (st\<lparr>play_direction :=
                      (if selectedCell st = Some (r, c)
                       then (if play_direction st = Horizontal then Vertical else Horizontal)
                       else play_direction st),
                    selectedCell := Some (r, c)\<rparr>, None))"

subsection \<open>Answer extraction and result merge\<close>

text \<open>
  \<open>handleSubmit\<close> first builds the request: for each word the characters of its span,
  a blank for an empty cell. \<open>grid[r][c].char\<close> throws for a cell outside the grid.
\<close>

definition answerStep :: "CellData list list \<Rightarrow> WordData \<Rightarrow> int \<Rightarrow> string \<Rightarrow> error + string" where
  "answerStep g w i userAnswer =
     (let r = spanRow (wd_direction w) (row_index w) i;
          c = spanCol (wd_direction w) (col_index w) i
      in case cellAt g r c of
           None \<Rightarrow> Inl TypeError
         | Some cell \<Rightarrow> Inr (userAnswer @ (if cell_char cell = [] then '' '' else cell_char cell)))"

fun answersPayload :: "CellData list list \<Rightarrow> WordData list \<Rightarrow> error + Answer list" where
  "answersPayload g [] = Inr []"
| "answersPayload g (w # ws) =
     (case foldE (answerStep g w) (offsets (wd_length w)) [] of
        Inl e \<Rightarrow> Inl e
      | Inr userAnswer \<Rightarrow>
          (case answersPayload g ws of
             Inl e \<Rightarrow> Inl e
           | Inr rest \<Rightarrow> Inr (\<lparr>ans_word_id = wd_id w, user_answer = userAnswer\<rparr> # rest)))"

text \<open>
  \<open>results.find(...)\<close> takes the first entry for the word; \<open>result?.is_correct || false\<close>
  is false when there is none.
\<close>

definition wordVerdict :: "CheckResult list \<Rightarrow> WordData \<Rightarrow> bool" where
  "wordVerdict results w =
     (case find (\<lambda>r. word_id r = wd_id w) results of
        None \<Rightarrow> False
      | Some result \<Rightarrow> is_correct result)"

text \<open>
  The body of the merge's inner loop. \<open>{ ...newGrid[r][c] }\<close> throws a TypeError when the
  row is missing. The merge runs only after the request was built from the same grid and
  the same words, and building the request has thrown for every span cell that is not in
  the grid; so in the merge every cell read exists (\<open>handleSubmit_merges\<close> below), and
  the one case in which JavaScript would not throw but extend a row (an existing row,
  a missing cell) is modelled as a TypeError as well. The merge writes into the row
  arrays of the current grid; as it cannot stop half way, this is not observable.
\<close>

definition flagCell :: "bool \<Rightarrow> CellData \<Rightarrow> CellData" where
  "flagCell wordCorrect cell =
     (if \<not> wordCorrect then cell\<lparr>isCorrect := Some False\<rparr>
      else if isCorrect cell \<noteq> Some False then cell\<lparr>isCorrect := Some True\<rparr>
      else cell)"

definition mergeCell :: "WordData \<Rightarrow> bool \<Rightarrow> int \<Rightarrow> CellData list list \<Rightarrow> error + CellData list list" where
  "mergeCell w wordCorrect i newGrid =
     (let r = spanRow (wd_direction w) (row_index w) i;
          c = spanCol (wd_direction w) (col_index w) i
      in case cellAt newGrid r c of
           None \<Rightarrow> Inl TypeError
         | Some cell \<Rightarrow> Inr (setCell newGrid r c (flagCell wordCorrect cell)))"

definition mergeResults ::
  "CheckResult list \<Rightarrow> WordData list \<Rightarrow> CellData list list \<Rightarrow> error + CellData list list" where
  "mergeResults results ws g =
     foldE (\<lambda>w. foldE (mergeCell w (wordVerdict results w)) (offsets (wd_length w))) ws g"

text \<open>
  \<open>handleSubmit\<close>, from the click to the end of its \<open>finally\<close>. The server is a parameter:
  it maps the request to the \<open>results\<close> array, or to \<open>None\<close> when the request fails.
  Every exception inside the \<open>try\<close> ends in the \<open>catch\<close>, which changes no state.
  Events that arrive while the request is pending are not modelled.
\<close>

definition handleSubmit :: "(Answer list \<Rightarrow> CheckResult list option) \<Rightarrow> PlayState \<Rightarrow> PlayState" where
  "handleSubmit server st =
     (case game st of
        None \<Rightarrow> st
      | Some gm \<Rightarrow>
          (case answersPayload (grid st) (words gm) of
             Inl e \<Rightarrow> st\<lparr>submitting := False\<rparr>
           | Inr payload \<Rightarrow>
               (case server payload of
                  None \<Rightarrow> st\<lparr>submitting := False\<rparr>
                | Some results \<Rightarrow>
                    (case mergeResults results (words gm) (grid st) of
                       Inl e \<Rightarrow> st\<lparr>submitting := False\<rparr>
                     | Inr newGrid \<Rightarrow>
                         (if list_all is_correct results
                          then st\<lparr>grid := newGrid, isPaused := True, isFinished := True,
                                  submitting := False\<rparr>
                          else st\<lparr>grid := newGrid, submitting := False\<rparr>)))))"

definition handleRestart :: "PlayState \<Rightarrow> PlayState" where
  "handleRestart st =
     st\<lparr>timer := 0, isPaused := False, isFinished := False,
        grid := map (\<lambda>row. map (\<lambda>cell. cell\<lparr>cell_char := [], isCorrect := None\<rparr>) row) (grid st)\<rparr>"

text \<open>The span of a word of the game, by its declared length.\<close>

definition wd_covers :: "WordData \<Rightarrow> int \<Rightarrow> int \<Rightarrow> bool" where
  "wd_covers w r c =
     (if wd_direction w = Horizontal
      then r = row_index w \<and> col_index w \<le> c \<and> c < col_index w + wd_length w
      else c = col_index w \<and> row_index w \<le> r \<and> r < row_index w + wd_length w)"

subsection \<open>Derived notions used in the statements\<close>

text \<open>A position inside the game's bounds, as the scan of \<open>moveFocus\<close> tests it.\<close>

definition inBounds :: "GameData option \<Rightarrow> int \<Rightarrow> int \<Rightarrow> bool" where
  "inBounds gm r c = (0 \<le> r \<and> r < gameRows gm \<and> 0 \<le> c \<and> c < gameCols gm)"

text \<open>
  The net effect of the merge on one cell: each word covering the cell applies
  \<open>flagCell\<close> with its verdict, in the order of the word list.
\<close>

definition mergedCell :: "CheckResult list \<Rightarrow> WordData list \<Rightarrow> int \<Rightarrow> int \<Rightarrow> CellData \<Rightarrow> CellData" where
  "mergedCell results ws r c cell =
     fold (\<lambda>w cell. if wd_covers w r c then flagCell (wordVerdict results w) cell else cell) ws cell"

text \<open>Every cell of every word's span exists in the grid.\<close>

definition spansInGrid :: "CellData list list \<Rightarrow> WordData list \<Rightarrow> bool" where
  "spansInGrid g ws =
     (\<forall>w\<in>set ws. \<forall>i\<in>set (offsets (wd_length w)).
        cellAt g (spanRow (wd_direction w) (row_index w) i)
                 (spanCol (wd_direction w) (col_index w) i) \<noteq> None)"

text \<open>A grid of \<open>nrows\<close> rows of \<open>ncols\<close> cells each.\<close>

definition gridShape :: "CellData list list \<Rightarrow> int \<Rightarrow> int \<Rightarrow> bool" where
  "gridShape g nrows ncols = (length g = nat nrows \<and> (\<forall>row\<in>set g. length row = nat ncols))"

text \<open>
  What \<open>markCell\<close> writes into a cell, and the net effect of \<open>initializeGrid\<close> on one
  cell: each word marks the cell at the offset of its span that falls on it, if any.
\<close>

definition markedBy :: "WordData \<Rightarrow> int \<Rightarrow> CellData \<Rightarrow> CellData" where
  "markedBy word i old =
     old\<lparr>isActive := True, wordIds := wordIds old @ [wd_id word],
         cell_number := (if i = 0 then Some (wd_number word) else cell_number old)\<rparr>"

definition markedCell :: "WordData list \<Rightarrow> int \<Rightarrow> int \<Rightarrow> CellData \<Rightarrow> CellData" where
  "markedCell ws r c cell =
     fold (\<lambda>w cell.
        case find (\<lambda>i. r = spanRow (wd_direction w) (row_index w) i \<and>
                        c = spanCol (wd_direction w) (col_index w) i) (offsets (wd_length w)) of
          None \<Rightarrow> cell
        | Some i \<Rightarrow> markedBy w i cell) ws cell"

subsection \<open>Concrete games\<close>

text \<open>
  The 5 x 5 game of the specification's end-to-end example (HELLO across and HAT down,
  sharing the cell \<open>(0, 0)\<close>), its grid before and after a check that finds only HAT
  incorrect, and three servers; and a 2 x 3 game whose only word is longer than the row.
\<close>

definition helloWord :: WordData where
  "helloWord = \<lparr>wd_id = ''w1'', wd_number = 1, wd_direction = Horizontal, row_index = 0,
                col_index = 0, wd_length = 5, wd_clue = ''greeting''\<rparr>"

definition hatWord :: WordData where
  "hatWord = \<lparr>wd_id = ''w2'', wd_number = 1, wd_direction = Vertical, row_index = 0,
              col_index = 0, wd_length = 3, wd_clue = ''headwear''\<rparr>"

definition helloGame :: GameData where
  "helloGame = \<lparr>game_id = ''g1'', game_name = ''demo'', rows = 5, cols = 5,
                words = [helloWord, hatWord]\<rparr>"

definition activeCell :: "string \<Rightarrow> int option \<Rightarrow> string list \<Rightarrow> bool option \<Rightarrow> CellData" where
  "activeCell ch num ids flag =
     \<lparr>isActive = True, cell_char = ch, cell_number = num, wordIds = ids, isCorrect = flag\<rparr>"

definition helloGrid :: "CellData list list" where
  "helloGrid =
     [[activeCell [] (Some 1) [''w1'', ''w2''] None, activeCell [] None [''w1''] None,
       activeCell [] None [''w1''] None, activeCell [] None [''w1''] None,
       activeCell [] None [''w1''] None],
      [activeCell [] None [''w2''] None, emptyCell, emptyCell, emptyCell, emptyCell],
      [activeCell [] None [''w2''] None, emptyCell, emptyCell, emptyCell, emptyCell],
      [emptyCell, emptyCell, emptyCell, emptyCell, emptyCell],
      [emptyCell, emptyCell, emptyCell, emptyCell, emptyCell]]"

definition helloState :: PlayState where
  "helloState = \<lparr>game = Some helloGame, grid = helloGrid, submitting = False, timer = 0,
      isPaused = False, isFinished = False, selectedCell = None, play_direction = Horizontal,
      focusRequest = None\<rparr>"

definition hatWrongServer :: "Answer list \<Rightarrow> CheckResult list option" where
  "hatWrongServer payload =
     Some [\<lparr>word_id = ''w1'', is_correct = True\<rparr>, \<lparr>word_id = ''w2'', is_correct = False\<rparr>]"

definition allRightServer :: "Answer list \<Rightarrow> CheckResult list option" where
  "allRightServer payload =
     Some [\<lparr>word_id = ''w1'', is_correct = True\<rparr>, \<lparr>word_id = ''w2'', is_correct = True\<rparr>]"

definition helloOnlyServer :: "Answer list \<Rightarrow> CheckResult list option" where
  "helloOnlyServer payload = Some [\<lparr>word_id = ''w1'', is_correct = True\<rparr>]"

definition hatWrongGrid :: "CellData list list" where
  "hatWrongGrid =
     [[activeCell [] (Some 1) [''w1'', ''w2''] (Some False), activeCell [] None [''w1''] (Some True),
       activeCell [] None [''w1''] (Some True), activeCell [] None [''w1''] (Some True),
       activeCell [] None [''w1''] (Some True)],
      [activeCell [] None [''w2''] (Some False), emptyCell, emptyCell, emptyCell, emptyCell],
      [activeCell [] None [''w2''] (Some False), emptyCell, emptyCell, emptyCell, emptyCell],
      [emptyCell, emptyCell, emptyCell, emptyCell, emptyCell],
      [emptyCell, emptyCell, emptyCell, emptyCell, emptyCell]]"

definition truncWord :: WordData where
  "truncWord = \<lparr>wd_id = ''w1'', wd_number = 1, wd_direction = Horizontal, row_index = 0,
                col_index = 1, wd_length = 5, wd_clue = ''too long''\<rparr>"

definition truncGame :: GameData where
  "truncGame = \<lparr>game_id = ''g2'', game_name = ''narrow'', rows = 2, cols = 3,
                words = [truncWord]\<rparr>"

definition truncGrid :: "CellData list list" where
  "truncGrid =
     [[emptyCell, activeCell [] (Some 1) [''w1''] None, activeCell [] None [''w1''] None],
      [emptyCell, emptyCell, emptyCell]]"

section \<open>GridBuilder: properties\<close>

subsection \<open>Character lookup and spans\<close>

lemma getCharAt_Cons:
  "getCharAt (pw # pws) r c =
     (if gw_covers pw r c then Some (gw_char pw r c) else getCharAt pws r c)"
  by (simp add: gw_covers_def gw_char_def)

lemma getCharAt_find:
  "getCharAt ps r c =
     (case find (\<lambda>pw. gw_covers pw r c) ps of None \<Rightarrow> None | Some pw \<Rightarrow> Some (gw_char pw r c))"
  by (induction ps) (simp_all add: getCharAt_Cons del: getCharAt.simps(2))

lemma getCharAt_None_iff:
  "getCharAt ps r c = None \<longleftrightarrow> (\<forall>pw\<in>set ps. \<not> gw_covers pw r c)"
  by (induction ps) (simp_all add: getCharAt_Cons del: getCharAt.simps(2))

lemma getCharAt_SomeD:
  "getCharAt ps r c = Some ch \<Longrightarrow> \<exists>pw\<in>set ps. gw_covers pw r c \<and> ch = gw_char pw r c"
  by (induction ps) (auto simp add: getCharAt_Cons simp del: getCharAt.simps(2) split: if_splits)

lemma getCharAt_append:
  "getCharAt (ps @ qs) r c =
     (case getCharAt ps r c of Some ch \<Rightarrow> Some ch | None \<Rightarrow> getCharAt qs r c)"
  by (induction ps) (simp_all add: getCharAt_Cons del: getCharAt.simps(2))

lemma canPlaceWord_loop_iff:
  "canPlaceWord_loop placed word r c dir js \<longleftrightarrow>
     (\<forall>i\<in>set js. \<forall>ch. getCharAt placed (spanRow dir r (int i)) (spanCol dir c (int i)) = Some ch
         \<longrightarrow> ch = word ! i)"
  by (induction js) (auto simp: Let_def split: option.splits)

lemma gw_covers_span:
  "gw_covers pw r c \<longleftrightarrow>
     (\<exists>i<length (gw_word pw). r = spanRow (gw_direction pw) (gw_row pw) (int i)
        \<and> c = spanCol (gw_direction pw) (gw_col pw) (int i))"
proof (cases "gw_direction pw")
  case Horizontal
  show ?thesis
  proof
    assume "gw_covers pw r c"
    with Horizontal have h: "r = gw_row pw" "gw_col pw \<le> c" "c < gw_col pw + int (length (gw_word pw))"
      by (auto simp: gw_covers_def)
    then have "nat (c - gw_col pw) < length (gw_word pw)" by linarith
    moreover have "c = gw_col pw + int (nat (c - gw_col pw))" using h by simp
    ultimately show "\<exists>i<length (gw_word pw). r = spanRow (gw_direction pw) (gw_row pw) (int i)
        \<and> c = spanCol (gw_direction pw) (gw_col pw) (int i)"
      using Horizontal h(1) unfolding spanRow_def spanCol_def by auto
  next
    assume "\<exists>i<length (gw_word pw). r = spanRow (gw_direction pw) (gw_row pw) (int i)
        \<and> c = spanCol (gw_direction pw) (gw_col pw) (int i)"
    then show "gw_covers pw r c"
      using Horizontal by (auto simp: gw_covers_def spanRow_def spanCol_def)
  qed
next
  case Vertical
  show ?thesis
  proof
    assume "gw_covers pw r c"
    with Vertical have h: "c = gw_col pw" "gw_row pw \<le> r" "r < gw_row pw + int (length (gw_word pw))"
      by (auto simp: gw_covers_def)
    then have "nat (r - gw_row pw) < length (gw_word pw)" by linarith
    moreover have "r = gw_row pw + int (nat (r - gw_row pw))" using h by simp
    ultimately show "\<exists>i<length (gw_word pw). r = spanRow (gw_direction pw) (gw_row pw) (int i)
        \<and> c = spanCol (gw_direction pw) (gw_col pw) (int i)"
      using Vertical h(1) unfolding spanRow_def spanCol_def by auto
  next
    assume "\<exists>i<length (gw_word pw). r = spanRow (gw_direction pw) (gw_row pw) (int i)
        \<and> c = spanCol (gw_direction pw) (gw_col pw) (int i)"
    then show "gw_covers pw r c"
      using Vertical by (auto simp: gw_covers_def spanRow_def spanCol_def)
  qed
qed

lemma gw_char_span:
  "gw_char pw (spanRow (gw_direction pw) (gw_row pw) (int i))
              (spanCol (gw_direction pw) (gw_col pw) (int i)) = gw_word pw ! i"
  by (cases "gw_direction pw") (simp_all add: gw_char_def spanRow_def spanCol_def)

lemma gw_covers_spanI:
  "i < length (gw_word pw) \<Longrightarrow>
   gw_covers pw (spanRow (gw_direction pw) (gw_row pw) (int i))
                (spanCol (gw_direction pw) (gw_col pw) (int i))"
  using gw_covers_span by blast


subsection \<open>Agreement of crossing words\<close>

lemma agree_getCharAt:
  assumes "agree ps" "pw \<in> set ps" "gw_covers pw r c"
  shows "getCharAt ps r c = Some (gw_char pw r c)"
proof -
  from assms(2,3) have "getCharAt ps r c \<noteq> None"
    by (auto simp: getCharAt_None_iff)
  then obtain ch where ch: "getCharAt ps r c = Some ch" by auto
  from getCharAt_SomeD[OF ch] obtain p0 where "p0 \<in> set ps" "gw_covers p0 r c" "ch = gw_char p0 r c"
    by blast
  with assms have "ch = gw_char pw r c" unfolding agree_def by blast
  with ch show ?thesis by simp
qed

lemma canPlaceWord_overlap:
  assumes "canPlaceWord placed word r c dir" "i < length word"
    "getCharAt placed (spanRow dir r (int i)) (spanCol dir c (int i)) = Some ch"
  shows "ch = word ! i"
proof -
  from assms(1) have "canPlaceWord_loop placed word r c dir [0..<length word]"
    by (auto simp: canPlaceWord_def split: if_splits)
  with assms(2,3) show ?thesis
    by (auto simp: canPlaceWord_loop_iff)
qed

lemma agree_place:
  assumes ag: "agree ps" and ok: "canPlaceWord ps w r c d"
    and new: "gw_word new = w" "gw_row new = r" "gw_col new = c" "gw_direction new = d"
  shows "agree (ps @ [new])"
proof -
  have cross: "gw_char new r' c' = gw_char q r' c'"
    if q: "q \<in> set ps" and cn: "gw_covers new r' c'" and cq: "gw_covers q r' c'" for q r' c'
  proof -
    from cn obtain i where i: "i < length w" "r' = spanRow d r (int i)" "c' = spanCol d c (int i)"
      using new by (auto simp: gw_covers_span)
    have g: "getCharAt ps r' c' = Some (gw_char q r' c')"
      using agree_getCharAt[OF ag q cq] .
    have "gw_char q r' c' = w ! i"
      using canPlaceWord_overlap[OF ok i(1)] g i by simp
    moreover have "gw_char new r' c' = w ! i"
      using gw_char_span[of new i] new i by simp
    ultimately show ?thesis by simp
  qed
  show ?thesis
    unfolding agree_def
  proof (intro ballI allI impI)
    fix p q r' c'
    assume p: "p \<in> set (ps @ [new])" and q: "q \<in> set (ps @ [new])"
      and cov: "gw_covers p r' c' \<and> gw_covers q r' c'"
    consider "p \<in> set ps" "q \<in> set ps" | "p = new" "q \<in> set ps" | "p \<in> set ps" "q = new"
      | "p = new" "q = new"
      using p q by auto
    then show "gw_char p r' c' = gw_char q r' c'"
    proof cases
      case 1 with ag cov show ?thesis unfolding agree_def by blast
    next
      case 2 with cross cov show ?thesis by blast
    next
      case 3 with cross[of p r' c'] cov show ?thesis by simp
    next
      case 4 then show ?thesis by simp
    qed
  qed
qed

lemma agree_shape:
  assumes "agree ps"
    and "\<forall>q\<in>set qs. \<exists>p\<in>set ps. gw_covers q = gw_covers p \<and> gw_char q = gw_char p"
  shows "agree qs"
  unfolding agree_def
proof (intro ballI allI impI)
  fix p q r c
  assume p: "p \<in> set qs" and q: "q \<in> set qs" and cov: "gw_covers p r c \<and> gw_covers q r c"
  from assms(2) p obtain p' where p': "p' \<in> set ps" "gw_covers p = gw_covers p'" "gw_char p = gw_char p'"
    by blast
  from assms(2) q obtain q' where q': "q' \<in> set ps" "gw_covers q = gw_covers q'" "gw_char q = gw_char q'"
    by blast
  have "gw_covers p' r c \<and> gw_covers q' r c" using cov p'(2) q'(2) by simp
  with assms(1) p'(1) q'(1) have "gw_char p' r c = gw_char q' r c"
    unfolding agree_def by blast
  then show "gw_char p r c = gw_char q r c" using p'(3) q'(3) by simp
qed

lemma renumbered_shape:
  "gw_covers (pw\<lparr>gw_number := n\<rparr>) = gw_covers pw" "gw_char (pw\<lparr>gw_number := n\<rparr>) = gw_char pw"
  by (simp_all add: gw_covers_def gw_char_def fun_eq_iff)

lemma set_renumber:
  assumes "q \<in> set (renumber xs)"
  shows "\<exists>p\<in>set xs. \<exists>n. q = p\<lparr>gw_number := n\<rparr>"
proof -
  from assms obtain ip where ip: "ip \<in> set (enumerate 0 xs)" "q = (snd ip)\<lparr>gw_number := int (fst ip) + 1\<rparr>"
    unfolding renumber_def by (auto simp: case_prod_beta)
  from ip(1) have "snd ip \<in> set xs"
    by (metis enumerate_eq_zip set_zip_rightD prod.collapse)
  with ip(2) show ?thesis by blast
qed

lemma removed_subset:
  "set (map snd (filter (\<lambda>(i, pw). int i \<noteq> index) (enumerate 0 ps))) \<subseteq> set ps"
proof
  fix x assume "x \<in> set (map snd (filter (\<lambda>(i, pw). int i \<noteq> index) (enumerate 0 ps)))"
  then obtain ip where "ip \<in> set (enumerate 0 ps)" "x = snd ip" by auto
  then show "x \<in> set ps"
    by (metis enumerate_eq_zip set_zip_rightD prod.collapse)
qed


lemma placedWords_remove:
  "placedWords (fst (handleRemovePlacedWord st index)) =
     renumber (map snd (filter (\<lambda>(i, pw). int i \<noteq> index) (enumerate 0 (placedWords st))))"
  by (cases "at_index (placedWords st) index") (simp_all add: handleRemovePlacedWord_def Let_def)

lemma agree_remove:
  assumes "agree (placedWords st)"
  shows "agree (placedWords (fst (handleRemovePlacedWord st index)))"
proof (rule agree_shape[OF assms], rule ballI)
  fix q assume "q \<in> set (placedWords (fst (handleRemovePlacedWord st index)))"
  then have "q \<in> set (renumber (map snd (filter (\<lambda>(i, pw). int i \<noteq> index)
                 (enumerate 0 (placedWords st)))))"
    by (simp only: placedWords_remove)
  from set_renumber[OF this] obtain p
    where p: "p \<in> set (map snd (filter (\<lambda>(i, pw). int i \<noteq> index) (enumerate 0 (placedWords st))))"
      and ex: "\<exists>n. q = p\<lparr>gw_number := n\<rparr>" ..
  from ex obtain n where q: "q = p\<lparr>gw_number := n\<rparr>" ..
  from p removed_subset[of index "placedWords st"] have "p \<in> set (placedWords st)" ..
  moreover have "gw_covers q = gw_covers p \<and> gw_char q = gw_char p"
    unfolding q by (simp only: renumbered_shape)
  ultimately show "\<exists>p\<in>set (placedWords st). gw_covers q = gw_covers p \<and> gw_char q = gw_char p"
    ..
qed

lemma click_cases:
  obtains (same) "placedWords (GridBuilder_handleCellClick iws st r c) = placedWords st"
  | (placed) s full where "selectedWordStr st = Some s" "s \<noteq> []"
      "canPlaceWord (placedWords st) s r c (ed_direction st)"
      "find (\<lambda>w. iw_word w = s) iws = Some full"
      "placedWords (GridBuilder_handleCellClick iws st r c) = placedWords st @
        [\<lparr>gw_word = s, gw_clue = iw_clue full, gw_row = r, gw_col = c,
          gw_direction = ed_direction st, gw_number = int (length (placedWords st)) + 1\<rparr>]"
proof (cases "selectedWordStr st")
  case None
  then show ?thesis using same by (simp add: GridBuilder_handleCellClick_def)
next
  case (Some s)
  show ?thesis
  proof (cases "s \<noteq> [] \<and> canPlaceWord (placedWords st) s r c (ed_direction st)")
    case False
    then show ?thesis using same Some by (auto simp add: GridBuilder_handleCellClick_def)
  next
    case True
    show ?thesis
    proof (cases "find (\<lambda>w. iw_word w = s) iws")
      case None
      then show ?thesis using same Some True by (simp add: GridBuilder_handleCellClick_def)
    next
      case (Some full)
      show ?thesis
        by (rule placed[of s full]) (use Some True \<open>selectedWordStr st = Some s\<close> in
            \<open>simp_all add: GridBuilder_handleCellClick_def\<close>)
    qed
  qed
qed

lemma agree_click:
  assumes "agree (placedWords st)"
  shows "agree (placedWords (GridBuilder_handleCellClick iws st r c))"
proof (cases rule: click_cases[of iws st r c])
  case same
  with assms show ?thesis by simp
next
  case (placed s full)
  show ?thesis
    unfolding placed(5) by (rule agree_place[OF assms placed(3)]) simp_all
qed

lemma placedWithoutConflict_agree: "placedWithoutConflict ps \<Longrightarrow> agree ps"
proof (induction rule: placedWithoutConflict.induct)
  case pwc_empty
  then show ?case by (simp add: agree_def)
next
  case (pwc_place st iws r c)
  then show ?case by (simp add: agree_click)
next
  case (pwc_remove st index)
  then show ?case by (simp add: agree_remove)
qed

subsection \<open>Two concrete placements\<close>

lemma catPlaced_click:
  "placedWords (GridBuilder_handleCellClick exampleWords
       (initialEditorState\<lparr>selectedWordStr := Some ''CAT''\<rparr>) 0 0) = catPlaced"
  by (simp add: GridBuilder_handleCellClick_def initialEditorState_def canPlaceWord_def
      GRID_SIZE_def spanRow_def spanCol_def exampleWords_def catPlaced_def)

lemma catPlaced_ok: "placedWithoutConflict catPlaced"
proof -
  have "placedWithoutConflict (placedWords (initialEditorState\<lparr>selectedWordStr := Some ''CAT''\<rparr>))"
    by (simp add: initialEditorState_def pwc_empty)
  from pwc_place[OF this, of exampleWords 0 0] show ?thesis
    by (simp only: catPlaced_click)
qed

lemma catCar_click:
  "placedWords (GridBuilder_handleCellClick exampleWords catState 0 0) = catCarPlaced"
  by (simp add: GridBuilder_handleCellClick_def catState_def canPlaceWord_def
      GRID_SIZE_def spanRow_def spanCol_def exampleWords_def catPlaced_def catCarPlaced_def)

lemma catCarPlaced_ok: "placedWithoutConflict catCarPlaced"
proof -
  have "placedWithoutConflict (placedWords catState)"
    by (simp add: catState_def catPlaced_ok)
  from pwc_place[OF this, of exampleWords 0 0] show ?thesis
    by (simp only: catCar_click)
qed

subsection \<open>Placement validation\<close>

lemma canPlaceWord_unfold:
  "canPlaceWord placed word r c dir \<longleftrightarrow>
     \<not> boundsFail word r c dir \<and> canPlaceWord_loop placed word r c dir [0..<length word]"
  by (simp add: canPlaceWord_def boundsFail_def)

text \<open>
  Claim C1, as amended. \<open>canPlaceWord\<close> returns false exactly when one of its two bounds
  tests fails or, at some offset \<open>i\<close> of the candidate's span, \<open>getCharAt\<close> (the first
  placed word, in list order, that covers the cell) returns a character that is not equal
  to \<open>word[i]\<close>; the comparison is exact, so letters that agree only up to case are a
  conflict. When the placed words were all placed through \<open>canPlaceWord\<close>, "the first
  covering word" can be read as "some covering word".
\<close>

theorem canPlaceWord_false_iff:
  "(\<not> canPlaceWord placed word r c dir \<longleftrightarrow>
      boundsFail word r c dir \<or>
      (\<exists>i<length word. \<exists>ch.
          getCharAt placed (spanRow dir r (int i)) (spanCol dir c (int i)) = Some ch \<and>
          ch \<noteq> word ! i)) \<and>
   (placedWithoutConflict placed \<longrightarrow>
      (\<not> canPlaceWord placed word r c dir \<longleftrightarrow>
         boundsFail word r c dir \<or>
         (\<exists>i<length word. \<exists>pw\<in>set placed.
            gw_covers pw (spanRow dir r (int i)) (spanCol dir c (int i)) \<and>
            gw_char pw (spanRow dir r (int i)) (spanCol dir c (int i)) \<noteq> word ! i)))"
proof (intro conjI impI)
  show general: "\<not> canPlaceWord placed word r c dir \<longleftrightarrow>
      boundsFail word r c dir \<or>
      (\<exists>i<length word. \<exists>ch.
          getCharAt placed (spanRow dir r (int i)) (spanCol dir c (int i)) = Some ch \<and>
          ch \<noteq> word ! i)"
    unfolding canPlaceWord_unfold canPlaceWord_loop_iff by auto
  assume "placedWithoutConflict placed"
  then have ag: "agree placed" by (rule placedWithoutConflict_agree)
  have "(\<exists>ch. getCharAt placed r' c' = Some ch \<and> ch \<noteq> x) \<longleftrightarrow>
        (\<exists>pw\<in>set placed. gw_covers pw r' c' \<and> gw_char pw r' c' \<noteq> x)" for r' c' x
  proof
    assume "\<exists>ch. getCharAt placed r' c' = Some ch \<and> ch \<noteq> x"
    then obtain ch where ch: "getCharAt placed r' c' = Some ch" "ch \<noteq> x" by blast
    from getCharAt_SomeD[OF ch(1)] ch(2)
    show "\<exists>pw\<in>set placed. gw_covers pw r' c' \<and> gw_char pw r' c' \<noteq> x" by blast
  next
    assume "\<exists>pw\<in>set placed. gw_covers pw r' c' \<and> gw_char pw r' c' \<noteq> x"
    then obtain pw where pw: "pw \<in> set placed" "gw_covers pw r' c'" "gw_char pw r' c' \<noteq> x"
      by blast
    from agree_getCharAt[OF ag pw(1,2)] pw(3)
    show "\<exists>ch. getCharAt placed r' c' = Some ch \<and> ch \<noteq> x" by simp
  qed
  then show "\<not> canPlaceWord placed word r c dir \<longleftrightarrow>
         boundsFail word r c dir \<or>
         (\<exists>i<length word. \<exists>pw\<in>set placed.
            gw_covers pw (spanRow dir r (int i)) (spanCol dir c (int i)) \<and>
            gw_char pw (spanRow dir r (int i)) (spanCol dir c (int i)) \<noteq> word ! i)"
    unfolding general by simp
qed

theorem canPlaceWord_false_iff_witness:
  "placedWithoutConflict catPlaced \<and>
   canPlaceWord catPlaced ''CAR'' 0 0 Vertical \<and>
   \<not> canPlaceWord catPlaced ''CAR'' 0 2 Vertical \<and>
   (\<exists>i<length ''CAR''. \<exists>pw\<in>set catPlaced.
      gw_covers pw (spanRow Vertical 0 (int i)) (spanCol Vertical 2 (int i)) \<and>
      gw_char pw (spanRow Vertical 0 (int i)) (spanCol Vertical 2 (int i)) \<noteq> ''CAR'' ! i)"
proof -
  have no: "\<not> canPlaceWord catPlaced ''CAR'' 0 2 Vertical"
    by (simp add: canPlaceWord_def GRID_SIZE_def spanRow_def spanCol_def catPlaced_def)
  have yes: "canPlaceWord catPlaced ''CAR'' 0 0 Vertical"
    by (simp add: canPlaceWord_def GRID_SIZE_def spanRow_def spanCol_def catPlaced_def)
  have nb: "\<not> boundsFail ''CAR'' 0 2 Vertical"
    by (simp add: boundsFail_def GRID_SIZE_def)
  from canPlaceWord_false_iff[where placed = catPlaced and word = "''CAR''" and r = 0 and c = 2 and dir = Vertical] catPlaced_ok no nb yes
  show ?thesis by blast
qed

text \<open>
  Claim C1 as stated fails: with \<open>A\<close> placed at the origin, the candidate \<open>a\<close> crossing it
  there is rejected, although no covered cell differs case-insensitively.
\<close>

theorem canPlaceWord_case_counterexample:
  "\<not> canPlaceWord [wordA] ''a'' 0 0 Vertical \<and>
   \<not> spec_overlapConflict [wordA] ''a'' 0 0 Vertical"
  by (simp add: canPlaceWord_def GRID_SIZE_def spanRow_def spanCol_def wordA_def spec_overlapConflict_def
      spanRow_def spanCol_def gw_covers_def gw_char_def differsCaseInsensitively_def
      toUpperAscii_def)

text \<open>
  Claim C2, as amended. \<open>canPlaceWord\<close> returns false when the direction is horizontal
  and \<open>c + word.length\<close> exceeds the grid size, and when it is vertical and
  \<open>r + word.length\<close> does; it makes no other bounds test. For an origin inside the grid
  (the only origins the click handler passes) an accepted span therefore lies inside the
  grid. On the empty canvas a placement is accepted exactly when both tests pass.
\<close>

theorem canPlaceWord_bounds:
  "(dir = Horizontal \<and> c + int (length word) > GRID_SIZE \<longrightarrow> \<not> canPlaceWord placed word r c dir) \<and>
   (dir = Vertical \<and> r + int (length word) > GRID_SIZE \<longrightarrow> \<not> canPlaceWord placed word r c dir) \<and>
   (0 \<le> r \<and> r < GRID_SIZE \<and> 0 \<le> c \<and> c < GRID_SIZE \<and> canPlaceWord placed word r c dir \<longrightarrow>
      (\<forall>i<length word.
          0 \<le> spanRow dir r (int i) \<and> spanRow dir r (int i) < GRID_SIZE \<and>
          0 \<le> spanCol dir c (int i) \<and> spanCol dir c (int i) < GRID_SIZE)) \<and>
   (canPlaceWord [] word r c dir \<longleftrightarrow>
      \<not> (dir = Horizontal \<and> c + int (length word) > GRID_SIZE) \<and>
      \<not> (dir = Vertical \<and> r + int (length word) > GRID_SIZE))"
proof (intro conjI impI allI)
  assume "dir = Horizontal \<and> c + int (length word) > GRID_SIZE"
  then show "\<not> canPlaceWord placed word r c dir" by (simp add: canPlaceWord_def)
next
  assume "dir = Vertical \<and> r + int (length word) > GRID_SIZE"
  then show "\<not> canPlaceWord placed word r c dir" by (simp add: canPlaceWord_def)
next
  fix i
  assume a: "0 \<le> r \<and> r < GRID_SIZE \<and> 0 \<le> c \<and> c < GRID_SIZE \<and> canPlaceWord placed word r c dir"
    and i: "i < length word"
  from a have nb: "\<not> boundsFail word r c dir" by (simp add: canPlaceWord_unfold)
  show "0 \<le> spanRow dir r (int i)" using a by (cases dir) (simp_all add: spanRow_def)
  show "0 \<le> spanCol dir c (int i)" using a by (cases dir) (simp_all add: spanCol_def)
  show "spanRow dir r (int i) < GRID_SIZE"
    using a nb i by (cases dir) (simp_all add: spanRow_def boundsFail_def)
  show "spanCol dir c (int i) < GRID_SIZE"
    using a nb i by (cases dir) (simp_all add: spanCol_def boundsFail_def)
next
  have "canPlaceWord_loop [] word r c dir js" for js
    by (induction js) simp_all
  then show "canPlaceWord [] word r c dir \<longleftrightarrow>
      \<not> (dir = Horizontal \<and> c + int (length word) > GRID_SIZE) \<and>
      \<not> (dir = Vertical \<and> r + int (length word) > GRID_SIZE)"
    by (simp add: canPlaceWord_def)
qed

theorem canPlaceWord_bounds_witness:
  "\<not> canPlaceWord catPlaced ''CAR'' 5 18 Horizontal \<and>
   \<not> canPlaceWord catPlaced ''CAR'' 18 5 Vertical \<and>
   canPlaceWord catPlaced ''CAR'' 17 5 Vertical \<and>
   spanRow Vertical 17 (int 2) < GRID_SIZE \<and>
   canPlaceWord [] ''CAR'' 5 17 Horizontal"
proof -
  have ok: "canPlaceWord catPlaced ''CAR'' 17 5 Vertical"
    by (simp add: canPlaceWord_def GRID_SIZE_def spanRow_def spanCol_def catPlaced_def)
  have g: "(0::int) \<le> 17 \<and> (17::int) < GRID_SIZE \<and> (0::int) \<le> 5 \<and> (5::int) < GRID_SIZE"
    by (simp add: GRID_SIZE_def)
  from canPlaceWord_bounds[where dir = Horizontal and c = 18 and word = "''CAR''" and placed = catPlaced and r = 5]
  have 1: "\<not> canPlaceWord catPlaced ''CAR'' 5 18 Horizontal" by (simp add: GRID_SIZE_def)
  from canPlaceWord_bounds[where dir = Vertical and c = 5 and word = "''CAR''" and placed = catPlaced and r = 18]
  have 2: "\<not> canPlaceWord catPlaced ''CAR'' 18 5 Vertical" by (simp add: GRID_SIZE_def)
  from canPlaceWord_bounds[where dir = Vertical and c = 5 and word = "''CAR''" and placed = catPlaced and r = 17] ok g
  have "\<forall>i<length ''CAR''. 0 \<le> spanRow Vertical 17 (int i) \<and> spanRow Vertical 17 (int i) < GRID_SIZE \<and>
          0 \<le> spanCol Vertical 5 (int i) \<and> spanCol Vertical 5 (int i) < GRID_SIZE"
    by blast
  from this[rule_format, of 2] have 3: "spanRow Vertical 17 (int 2) < GRID_SIZE" by simp
  from canPlaceWord_bounds[where dir = Horizontal and c = 17 and word = "''CAR''" and placed = "[]" and r = 5]
  have 4: "canPlaceWord [] ''CAR'' 5 17 Horizontal" by (simp add: GRID_SIZE_def)
  from 1 2 3 4 ok show ?thesis by simp
qed

text \<open>
  Claim C2 as stated fails: a negative origin row or column, and a row beyond the grid
  for a horizontal word, are accepted.
\<close>

theorem canPlaceWord_negative_origin_counterexample:
  "canPlaceWord [] ''A'' (- 1) 0 Horizontal \<and> canPlaceWord [] ''A'' 0 (- 1) Vertical \<and>
   canPlaceWord [] ''A'' 25 0 Horizontal"
  by (simp add: canPlaceWord_def GRID_SIZE_def spanRow_def spanCol_def)

subsection \<open>Character lookup on conflict-free placements\<close>

text \<open>
  Claim C5. \<open>getCharAt\<close> returns \<open>null\<close> exactly when no placed word covers the cell, and
  otherwise the character that some covering word holds there; and when the words were
  placed without conflict, it returns at every cell of every placed word's span that
  word's own character.
\<close>

theorem getCharAt_covering:
  "(getCharAt placed r c = None \<longleftrightarrow> (\<forall>pw\<in>set placed. \<not> gw_covers pw r c)) \<and>
   (\<forall>ch. getCharAt placed r c = Some ch \<longrightarrow>
      (\<exists>pw\<in>set placed. gw_covers pw r c \<and> ch = gw_char pw r c)) \<and>
   (placedWithoutConflict placed \<longrightarrow>
      (\<forall>w\<in>set placed. \<forall>i<length (gw_word w).
         getCharAt placed (spanRow (gw_direction w) (gw_row w) (int i))
                          (spanCol (gw_direction w) (gw_col w) (int i)) = Some (gw_word w ! i)))"
proof (intro conjI impI allI ballI)
  show "getCharAt placed r c = None \<longleftrightarrow> (\<forall>pw\<in>set placed. \<not> gw_covers pw r c)"
    by (rule getCharAt_None_iff)
next
  fix ch assume "getCharAt placed r c = Some ch"
  then show "\<exists>pw\<in>set placed. gw_covers pw r c \<and> ch = gw_char pw r c"
    by (rule getCharAt_SomeD)
next
  fix w i
  assume pwc: "placedWithoutConflict placed" and w: "w \<in> set placed" and i: "i < length (gw_word w)"
  from pwc have ag: "agree placed" by (rule placedWithoutConflict_agree)
  from agree_getCharAt[OF ag w gw_covers_spanI[OF i]]
  show "getCharAt placed (spanRow (gw_direction w) (gw_row w) (int i))
                          (spanCol (gw_direction w) (gw_col w) (int i)) = Some (gw_word w ! i)"
    by (simp only: gw_char_span)
qed

theorem getCharAt_covering_witness:
  "placedWithoutConflict catCarPlaced \<and>
   getCharAt catCarPlaced 5 5 = None \<and>
   getCharAt catCarPlaced 0 0 = Some CHR ''C'' \<and>
   getCharAt catCarPlaced 0 2 = Some CHR ''T'' \<and>
   getCharAt catCarPlaced 2 0 = Some CHR ''R'' \<and>
   getCharAt catCarPlaced (spanRow Vertical 0 (int 2)) (spanCol Vertical 0 (int 2)) = Some (''CAR'' ! 2)"
proof -
  have mem: "\<lparr>gw_word = ''CAR'', gw_clue = ''vehicle'', gw_row = 0, gw_col = 0,
                 gw_direction = Vertical, gw_number = 2\<rparr> \<in> set catCarPlaced"
    by (simp add: catCarPlaced_def)
  from getCharAt_covering[where placed = catCarPlaced and r = 5 and c = 5] catCarPlaced_ok mem
  have "getCharAt catCarPlaced (spanRow Vertical 0 (int 2)) (spanCol Vertical 0 (int 2)) = Some (''CAR'' ! 2)"
    by fastforce
  moreover have "getCharAt catCarPlaced 5 5 = None" "getCharAt catCarPlaced 0 0 = Some CHR ''C''"
    "getCharAt catCarPlaced 0 2 = Some CHR ''T''" "getCharAt catCarPlaced 2 0 = Some CHR ''R''"
    by (simp_all add: catCarPlaced_def catPlaced_def)
  ultimately show ?thesis using catCarPlaced_ok by simp
qed

subsection \<open>Numbering of placed words\<close>

lemma dense_snoc:
  "dense ps \<Longrightarrow> gw_number w = int (length ps) + 1 \<Longrightarrow> dense (ps @ [w])"
  by (simp add: dense_def)

lemma enumerate_map_number:
  "map (\<lambda>(i, pw). gw_number (pw\<lparr>gw_number := int i + 1\<rparr>)) (enumerate n xs)
     = map (\<lambda>i. int i + 1) [n..<n + length xs]"
proof (induction xs arbitrary: n)
  case Nil
  then show ?case by simp
next
  case (Cons x xs)
  have "[n..<n + length (x # xs)] = n # [Suc n..<Suc n + length xs]"
    using upt_rec[of n "n + length (x # xs)"] by simp
  then show ?case using Cons[of "Suc n"] by simp
qed

lemma number_renumber:
  "map gw_number (renumber xs) = map (\<lambda>i. int i + 1) [0..<length xs]"
proof -
  have "map gw_number (renumber xs)
          = map (\<lambda>(i, pw). gw_number (pw\<lparr>gw_number := int i + 1\<rparr>)) (enumerate 0 xs)"
    unfolding renumber_def by (simp add: case_prod_beta comp_def)
  then show ?thesis using enumerate_map_number[of 0 xs] by simp
qed

lemma length_renumber: "length (renumber xs) = length xs"
  by (simp add: renumber_def)

lemma dense_renumber: "dense (renumber xs)"
  by (simp add: dense_def number_renumber length_renumber)

lemma forget_renumber_aux:
  "map (\<lambda>(i, pw). (pw\<lparr>gw_number := int i + 1\<rparr>)\<lparr>gw_number := 0\<rparr>) (enumerate n xs)
     = map (\<lambda>pw. pw\<lparr>gw_number := 0\<rparr>) xs"
  by (induction xs arbitrary: n) simp_all

lemma forget_renumber:
  "map (\<lambda>pw. pw\<lparr>gw_number := 0\<rparr>) (renumber xs) = map (\<lambda>pw. pw\<lparr>gw_number := 0\<rparr>) xs"
proof -
  have "map (\<lambda>pw. pw\<lparr>gw_number := 0\<rparr>) (renumber xs)
     = map (\<lambda>(i, pw). (pw\<lparr>gw_number := int i + 1\<rparr>)\<lparr>gw_number := 0\<rparr>) (enumerate 0 xs)"
    unfolding renumber_def by (simp add: case_prod_beta comp_def)
  then show ?thesis by (simp only: forget_renumber_aux)
qed

lemma filter_enumerate_keep:
  "m < n \<Longrightarrow> map snd (filter (\<lambda>(i, x). i \<noteq> m) (enumerate n xs)) = xs"
  by (induction xs arbitrary: n) simp_all

lemma filter_enumerate_drop:
  "map snd (filter (\<lambda>(i, x). i \<noteq> k + n) (enumerate n xs)) = take k xs @ drop (Suc k) xs"
proof (induction xs arbitrary: k n)
  case Nil
  then show ?case by simp
next
  case (Cons x xs)
  show ?case
  proof (cases k)
    case 0
    then show ?thesis using filter_enumerate_keep[of n "Suc n" xs] by simp
  next
    case (Suc k')
    then show ?thesis using Cons[of k' "Suc n"] by simp
  qed
qed

lemma removed_take_drop:
  assumes "0 \<le> index"
  shows "map snd (filter (\<lambda>(i, pw). int i \<noteq> index) (enumerate 0 ps))
           = take (nat index) ps @ drop (Suc (nat index)) ps"
proof -
  have "(\<lambda>(i, pw). int i \<noteq> index) = (\<lambda>(i::nat, pw::'a). i \<noteq> nat index + 0)"
    using assms by (auto simp: fun_eq_iff)
  then show ?thesis using filter_enumerate_drop[of "nat index" 0 ps] by simp
qed

lemma dense_validPlaced: "dense acc \<Longrightarrow> dense (validPlaced iws pws acc)"
proof (induction pws arbitrary: acc)
  case Nil
  then show ?case by simp
next
  case (Cons pw pws)
  show ?case
  proof (cases "find (\<lambda>iw. iw_word iw = gw_word pw) iws")
    case None
    then show ?thesis using Cons by simp
  next
    case (Some m)
    have "dense (acc @ [pw\<lparr>gw_clue := iw_clue m, gw_number := int (length acc) + 1\<rparr>])"
      by (rule dense_snoc[OF Cons.prems]) simp
    from Cons.IH[OF this] Some show ?thesis by simp
  qed
qed

lemma dense_sync: "dense (placedWords (syncWithProps iws pws st))"
  using dense_validPlaced[of "[]" iws pws]
  by (simp add: syncWithProps_def Let_def dense_def)

lemma dense_click:
  assumes "dense (placedWords st)"
  shows "dense (placedWords (GridBuilder_handleCellClick iws st r c))"
proof (cases rule: click_cases[of iws st r c])
  case same
  with assms show ?thesis by simp
next
  case (placed s full)
  show ?thesis unfolding placed(5) by (rule dense_snoc[OF assms]) simp
qed

lemma reachable_dense: "editor_reachable st \<Longrightarrow> dense (placedWords st)"
proof (induction rule: editor_reachable.induct)
  case er_init
  then show ?case by (simp add: initialEditorState_def dense_def)
next
  case (er_sync st iws pws)
  show ?case by (rule dense_sync)
next
  case (er_click st iws r c)
  from er_click.IH show ?case by (rule dense_click)
next
  case (er_remove st index)
  show ?case by (simp only: placedWords_remove dense_renumber)
next
  case (er_select st w)
  then show ?case by simp
next
  case (er_toggle st)
  then show ?case by simp
qed

text \<open>
  Claim C6. In every state the component reaches, the numbers of the placed words are
  \<open>1..N\<close> in list order. A click that places a word appends it with number \<open>N + 1\<close>;
  removing the word at a valid index leaves the other words in their order, renumbered
  \<open>1..N - 1\<close>.
\<close>

theorem placedWords_numbering:
  "(editor_reachable st \<longrightarrow> dense (placedWords st)) \<and>
   (placedWords (GridBuilder_handleCellClick iws st r c) \<noteq> placedWords st \<longrightarrow>
      (\<exists>w. placedWords (GridBuilder_handleCellClick iws st r c) = placedWords st @ [w] \<and>
           gw_number w = int (length (placedWords st)) + 1)) \<and>
   (0 \<le> index \<and> index < int (length (placedWords st)) \<longrightarrow>
      length (placedWords (fst (handleRemovePlacedWord st index))) = length (placedWords st) - 1 \<and>
      map gw_number (placedWords (fst (handleRemovePlacedWord st index)))
        = map (\<lambda>i. int i + 1) [0..<length (placedWords st) - 1] \<and>
      map (\<lambda>pw. pw\<lparr>gw_number := 0\<rparr>) (placedWords (fst (handleRemovePlacedWord st index)))
        = map (\<lambda>pw. pw\<lparr>gw_number := 0\<rparr>)
            (take (nat index) (placedWords st) @ drop (Suc (nat index)) (placedWords st)))"
proof (intro conjI impI)
  assume "editor_reachable st"
  then show "dense (placedWords st)" by (rule reachable_dense)
next
  assume ne: "placedWords (GridBuilder_handleCellClick iws st r c) \<noteq> placedWords st"
  show "\<exists>w. placedWords (GridBuilder_handleCellClick iws st r c) = placedWords st @ [w] \<and>
           gw_number w = int (length (placedWords st)) + 1"
  proof (cases rule: click_cases[of iws st r c])
    case same
    with ne show ?thesis by simp
  next
    case (placed s full)
    show ?thesis unfolding placed(5) by simp
  qed
next
  assume idx: "0 \<le> index \<and> index < int (length (placedWords st))"
  let ?rest = "take (nat index) (placedWords st) @ drop (Suc (nat index)) (placedWords st)"
  have eq: "placedWords (fst (handleRemovePlacedWord st index)) = renumber ?rest"
    using idx by (simp only: placedWords_remove removed_take_drop)
  have len: "length ?rest = length (placedWords st) - 1"
    using idx by auto
  show "length (placedWords (fst (handleRemovePlacedWord st index))) = length (placedWords st) - 1"
    unfolding eq length_renumber by (rule len)
  show "map gw_number (placedWords (fst (handleRemovePlacedWord st index)))
        = map (\<lambda>i. int i + 1) [0..<length (placedWords st) - 1]"
    unfolding eq number_renumber len ..
  show "map (\<lambda>pw. pw\<lparr>gw_number := 0\<rparr>) (placedWords (fst (handleRemovePlacedWord st index)))
        = map (\<lambda>pw. pw\<lparr>gw_number := 0\<rparr>) ?rest"
    unfolding eq by (rule forget_renumber)
qed

theorem placedWords_numbering_witness:
  "editor_reachable catState \<and> dense (placedWords catState) \<and>
   map gw_number (placedWords (GridBuilder_handleCellClick exampleWords catState 0 0)) = [1, 2] \<and>
   map gw_number (placedWords (fst (handleRemovePlacedWord
       (catState\<lparr>placedWords := catCarPlaced\<rparr>) 0))) = [1] \<and>
   map gw_word (placedWords (fst (handleRemovePlacedWord
       (catState\<lparr>placedWords := catCarPlaced\<rparr>) 0))) = [''CAR'']"
proof -
  let ?s0 = "initialEditorState\<lparr>selectedWordStr := Some ''CAT''\<rparr>"
  let ?s1 = "GridBuilder_handleCellClick exampleWords ?s0 0 0"
  let ?s2 = "syncWithProps exampleWords catPlaced initialEditorState"
  have s2: "?s2\<lparr>selectedWordStr := Some ''CAR''\<rparr>\<lparr>ed_direction :=
        (if ed_direction (?s2\<lparr>selectedWordStr := Some ''CAR''\<rparr>) = Horizontal
         then Vertical else Horizontal)\<rparr> = catState"
    by (simp add: syncWithProps_def exampleWords_def catPlaced_def initialEditorState_def
        catState_def)
  have reach: "editor_reachable catState"
    using er_toggle[OF er_select[OF er_sync[OF er_init, of exampleWords catPlaced], of "''CAR''"]]
    by (simp only: s2)
  have neq: "placedWords (GridBuilder_handleCellClick exampleWords catState 0 0) \<noteq> placedWords catState"
    unfolding catCar_click by (simp add: catCarPlaced_def catState_def)
  have idx: "(0::int) \<le> 0 \<and> 0 < int (length (placedWords (catState\<lparr>placedWords := catCarPlaced\<rparr>)))"
    by (simp add: catCarPlaced_def catPlaced_def)
  from placedWords_numbering[where st = catState and iws = exampleWords and r = 0 and c = 0 and index = 0] reach
  have d: "dense (placedWords catState)" by blast
  from placedWords_numbering[where st = "catState\<lparr>placedWords := catCarPlaced\<rparr>" and iws = exampleWords and r = 0 and c = 0 and index = 0] idx
  have n: "map gw_number (placedWords (fst (handleRemovePlacedWord
       (catState\<lparr>placedWords := catCarPlaced\<rparr>) 0))) = [1]"
    by (simp add: catCarPlaced_def catPlaced_def)
  have w: "map gw_word (placedWords (fst (handleRemovePlacedWord
       (catState\<lparr>placedWords := catCarPlaced\<rparr>) 0))) = [''CAR'']"
    by (simp add: handleRemovePlacedWord_def at_index_def renumber_def catCarPlaced_def
        catPlaced_def Let_def)
  have c: "map gw_number (placedWords (GridBuilder_handleCellClick exampleWords catState 0 0)) = [1, 2]"
    by (simp add: catCar_click catCarPlaced_def catPlaced_def)
  from reach d n w c show ?thesis by simp
qed
section \<open>PlayCrossword: properties\<close>

subsection \<open>Grid access\<close>

lemma cellAt_Some_iff:
  "cellAt g r c = Some x \<longleftrightarrow>
     0 \<le> r \<and> nat r < length g \<and> 0 \<le> c \<and> nat c < length (g ! nat r) \<and> g ! nat r ! nat c = x"
  by (auto simp: cellAt_def at_index_def split: option.splits)

lemma cellAt_None_iff:
  "cellAt g r c = None \<longleftrightarrow>
     \<not> (0 \<le> r \<and> nat r < length g \<and> 0 \<le> c \<and> nat c < length (g ! nat r))"
  by (auto simp: cellAt_def at_index_def split: option.splits)

lemma shape_setCell: "map length (setCell g r c x) = map length g"
  by (cases "nat r < length g")
     (simp_all add: setCell_def map_update list_update_same_conv list_update_beyond)

lemma length_setCell: "length (setCell g r c x) = length g"
  by (simp add: setCell_def)

lemma cellAt_setCell:
  assumes "cellAt g r c = Some old"
  shows "cellAt (setCell g r c x) r' c' = (if r' = r \<and> c' = c then Some x else cellAt g r' c')"
proof -
  from assms have r: "0 \<le> r" "nat r < length g" and c: "0 \<le> c" "nat c < length (g ! nat r)"
    by (simp_all add: cellAt_Some_iff)
  show ?thesis
  proof (cases "r' = r")
    case True
    with r c show ?thesis
      by (cases "c' = c")
         (auto simp: cellAt_def at_index_def setCell_def nth_list_update split: option.splits)
  next
    case False
    with r show ?thesis
      by (auto simp: cellAt_def at_index_def setCell_def nth_list_update split: option.splits)
  qed
qed

lemma cellAt_shape_None:
  assumes "map length g = map length g'"
  shows "cellAt g r c = None \<longleftrightarrow> cellAt g' r c = None"
proof -
  from assms have l: "length g = length g'" by (metis length_map)
  have "length (g ! n) = length (g' ! n)" if "n < length g" for n
    using assms that by (metis nth_map l)
  with l show ?thesis unfolding cellAt_None_iff by auto
qed

lemma grid_eqI:
  assumes "map length g = map length g'" and "\<And>r c. cellAt g r c = cellAt g' r c"
  shows "g = g'"
proof (rule nth_equalityI)
  from assms(1) show l: "length g = length g'" by (metis length_map)
  fix i assume i: "i < length g"
  have li: "length (g ! i) = length (g' ! i)"
    using assms(1) i l by (metis nth_map)
  show "g ! i = g' ! i"
  proof (rule nth_equalityI[OF li])
    fix j assume j: "j < length (g ! i)"
    have "cellAt g (int i) (int j) = Some (g ! i ! j)"
      using i j by (simp add: cellAt_Some_iff)
    moreover have "cellAt g' (int i) (int j) = Some (g' ! i ! j)"
      using i j l li by (simp add: cellAt_Some_iff)
    ultimately show "g ! i ! j = g' ! i ! j" using assms(2)[of "int i" "int j"] by simp
  qed
qed

lemma foldE_append:
  "foldE f (xs @ ys) s = (case foldE f xs s of Inl e \<Rightarrow> Inl e | Inr s' \<Rightarrow> foldE f ys s')"
  by (induction xs arbitrary: s) (auto split: sum.splits)

lemma wd_covers_span:
  "wd_covers w r c \<longleftrightarrow>
     (\<exists>i\<in>set (offsets (wd_length w)).
         r = spanRow (wd_direction w) (row_index w) i \<and> c = spanCol (wd_direction w) (col_index w) i)"
proof -
  have off: "set (offsets n) = {i. 0 \<le> i \<and> i < n}" for n
  proof -
    have "i \<in> int ` {0..<nat n} \<longleftrightarrow> 0 \<le> i \<and> i < n" for i
    proof
      assume "i \<in> int ` {0..<nat n}" then show "0 \<le> i \<and> i < n" by auto
    next
      assume "0 \<le> i \<and> i < n"
      then have "nat i \<in> {0..<nat n}" "i = int (nat i)" by auto
      then show "i \<in> int ` {0..<nat n}" by (rule_tac x = "nat i" in image_eqI) auto
    qed
    then show ?thesis by (auto simp: offsets_def)
  qed
  show ?thesis
  proof (cases "wd_direction w")
    case Horizontal
    then show ?thesis
      unfolding wd_covers_def off spanRow_def spanCol_def
      by (auto intro!: exI[where x = "c - col_index w"])
  next
    case Vertical
    then show ?thesis
      unfolding wd_covers_def off spanRow_def spanCol_def
      by (auto intro!: exI[where x = "r - row_index w"])
  qed
qed

subsection \<open>The result merge\<close>

lemma flagCell_idem: "flagCell b (flagCell b cell) = flagCell b cell"
  by (simp add: flagCell_def)

lemma mergeCell_unfold:
  "mergeCell w b i g =
     (case cellAt g (spanRow (wd_direction w) (row_index w) i)
                    (spanCol (wd_direction w) (col_index w) i) of
        None \<Rightarrow> Inl TypeError
      | Some cell \<Rightarrow>
          Inr (setCell g (spanRow (wd_direction w) (row_index w) i)
                         (spanCol (wd_direction w) (col_index w) i) (flagCell b cell)))"
  by (simp add: mergeCell_def Let_def)

lemma mergeWord_cells:
  assumes "foldE (mergeCell w b) js g = Inr g'"
  shows "map length g' = map length g \<and>
         (\<forall>r c. cellAt g' r c =
            map_option (\<lambda>cell. if (\<exists>i\<in>set js. r = spanRow (wd_direction w) (row_index w) i \<and>
                                      c = spanCol (wd_direction w) (col_index w) i)
                                then flagCell b cell else cell) (cellAt g r c))"
  using assms
proof (induction js arbitrary: g)
  case Nil
  then show ?case by (simp add: option.map_ident)
next
  case (Cons i js)
  let ?ri = "spanRow (wd_direction w) (row_index w) i"
  let ?ci = "spanCol (wd_direction w) (col_index w) i"
  from Cons.prems obtain cell0 where c0: "cellAt g ?ri ?ci = Some cell0"
    by (cases "cellAt g ?ri ?ci") (simp_all add: mergeCell_unfold)
  let ?g1 = "setCell g ?ri ?ci (flagCell b cell0)"
  have step: "mergeCell w b i g = Inr ?g1" using c0 by (simp add: mergeCell_unfold)
  with Cons.prems have rest: "foldE (mergeCell w b) js ?g1 = Inr g'" by simp
  from Cons.IH[OF rest] have sh: "map length g' = map length ?g1"
    and cells: "\<And>r c. cellAt g' r c =
            map_option (\<lambda>cell. if (\<exists>i\<in>set js. r = spanRow (wd_direction w) (row_index w) i \<and>
                                      c = spanCol (wd_direction w) (col_index w) i)
                                then flagCell b cell else cell) (cellAt ?g1 r c)"
    by simp_all
  show ?case
  proof (intro conjI allI)
    show "map length g' = map length g" using sh by (simp add: shape_setCell)
  next
    fix r c
    show "cellAt g' r c =
            map_option (\<lambda>cell. if (\<exists>i\<in>set (i # js). r = spanRow (wd_direction w) (row_index w) i \<and>
                                      c = spanCol (wd_direction w) (col_index w) i)
                                then flagCell b cell else cell) (cellAt g r c)"
    proof (cases "r = ?ri \<and> c = ?ci")
      case True
      then show ?thesis
        using cells[of r c] c0 by (simp add: cellAt_setCell[OF c0] flagCell_idem)
    next
      case False
      then show ?thesis
        using cells[of r c] by (auto simp add: cellAt_setCell[OF c0])
    qed
  qed
qed

lemma mergeResults_Nil: "mergeResults results [] g = Inr g"
  by (simp add: mergeResults_def)

lemma mergeResults_Cons:
  "mergeResults results (w # ws) g =
     (case foldE (mergeCell w (wordVerdict results w)) (offsets (wd_length w)) g of
        Inl e \<Rightarrow> Inl e
      | Inr g1 \<Rightarrow> mergeResults results ws g1)"
  by (cases "foldE (mergeCell w (wordVerdict results w)) (offsets (wd_length w)) g")
     (simp_all add: mergeResults_def)

lemma mergedCell_Cons:
  "mergedCell results (w # ws) r c cell =
     mergedCell results ws r c
       (if wd_covers w r c then flagCell (wordVerdict results w) cell else cell)"
  by (simp add: mergedCell_def)

lemma mergeResults_cells:
  assumes "mergeResults results ws g = Inr g'"
  shows "map length g' = map length g \<and>
         (\<forall>r c. cellAt g' r c = map_option (mergedCell results ws r c) (cellAt g r c))"
  using assms
proof (induction ws arbitrary: g)
  case Nil
  then show ?case by (simp add: mergeResults_Nil mergedCell_def option.map_ident)
next
  case (Cons w ws)
  from Cons.prems obtain g1
    where g1: "foldE (mergeCell w (wordVerdict results w)) (offsets (wd_length w)) g = Inr g1"
      and rest: "mergeResults results ws g1 = Inr g'"
    by (auto simp: mergeResults_Cons split: sum.splits)
  from mergeWord_cells[OF g1] have sh1: "map length g1 = map length g"
    and c1: "\<And>r c. cellAt g1 r c =
       map_option (\<lambda>cell. if wd_covers w r c then flagCell (wordVerdict results w) cell else cell)
         (cellAt g r c)"
    by (simp_all add: wd_covers_span)
  from Cons.IH[OF rest] have sh2: "map length g' = map length g1"
    and c2: "\<And>r c. cellAt g' r c = map_option (mergedCell results ws r c) (cellAt g1 r c)"
    by simp_all
  show ?case
  proof (intro conjI allI)
    show "map length g' = map length g" using sh1 sh2 by simp
  next
    fix r c
    show "cellAt g' r c = map_option (mergedCell results (w # ws) r c) (cellAt g r c)"
      unfolding c2 c1 by (cases "cellAt g r c") (simp_all add: mergedCell_Cons)
  qed
qed

lemma mergedCell_closed:
  "mergedCell results ws r c cell =
     (if \<exists>w\<in>set ws. wd_covers w r c
      then cell\<lparr>isCorrect := Some (isCorrect cell \<noteq> Some False \<and>
                   (\<forall>w\<in>set ws. wd_covers w r c \<longrightarrow> wordVerdict results w))\<rparr>
      else cell)"
proof (induction ws arbitrary: cell)
  case Nil
  then show ?case by (simp add: mergedCell_def)
next
  case (Cons w ws)
  show ?case
  proof (cases "wd_covers w r c")
    case False
    then show ?thesis by (simp add: mergedCell_Cons Cons.IH)
  next
    case True
    show ?thesis
    proof (cases "wordVerdict results w")
      case False
      with True show ?thesis
        by (simp add: mergedCell_Cons Cons.IH flagCell_def)
    next
      case v: True
      show ?thesis
      proof (cases "isCorrect cell = Some False")
        case True
        with v \<open>wd_covers w r c\<close> show ?thesis
          by (simp add: mergedCell_Cons Cons.IH flagCell_def)
      next
        case False
        with v \<open>wd_covers w r c\<close> show ?thesis
          by (simp add: mergedCell_Cons Cons.IH flagCell_def)
      qed
    qed
  qed
qed


lemma mergeWord_succeeds:
  assumes "\<forall>i\<in>set js. cellAt g (spanRow (wd_direction w) (row_index w) i)
                                  (spanCol (wd_direction w) (col_index w) i) \<noteq> None"
  shows "\<exists>g'. foldE (mergeCell w b) js g = Inr g'"
  using assms
proof (induction js arbitrary: g)
  case Nil
  then show ?case by simp
next
  case (Cons i js)
  let ?ri = "spanRow (wd_direction w) (row_index w) i"
  let ?ci = "spanCol (wd_direction w) (col_index w) i"
  from Cons.prems obtain cell0 where c0: "cellAt g ?ri ?ci = Some cell0" by auto
  let ?g1 = "setCell g ?ri ?ci (flagCell b cell0)"
  have step: "mergeCell w b i g = Inr ?g1" using c0 by (simp add: mergeCell_unfold)
  have "\<forall>j\<in>set js. cellAt ?g1 (spanRow (wd_direction w) (row_index w) j)
                                  (spanCol (wd_direction w) (col_index w) j) \<noteq> None"
    using Cons.prems cellAt_shape_None[OF shape_setCell, of g ?ri ?ci "flagCell b cell0"]
    by simp
  from Cons.IH[OF this] step show ?case by simp
qed

lemma spansInGrid_Cons:
  "spansInGrid g (w # ws) \<longleftrightarrow>
     (\<forall>i\<in>set (offsets (wd_length w)).
        cellAt g (spanRow (wd_direction w) (row_index w) i)
                 (spanCol (wd_direction w) (col_index w) i) \<noteq> None) \<and> spansInGrid g ws"
  by (simp add: spansInGrid_def)

lemma spansInGrid_shape:
  "map length g = map length g' \<Longrightarrow> spansInGrid g ws \<Longrightarrow> spansInGrid g' ws"
  unfolding spansInGrid_def using cellAt_shape_None by blast

lemma mergeResults_succeeds:
  assumes "spansInGrid g ws"
  shows "\<exists>g'. mergeResults results ws g = Inr g'"
  using assms
proof (induction ws arbitrary: g)
  case Nil
  then show ?case by (simp add: mergeResults_Nil)
next
  case (Cons w ws)
  from Cons.prems have a: "\<forall>i\<in>set (offsets (wd_length w)).
        cellAt g (spanRow (wd_direction w) (row_index w) i)
                 (spanCol (wd_direction w) (col_index w) i) \<noteq> None"
    and b: "spansInGrid g ws"
    by (simp_all add: spansInGrid_Cons)
  from mergeWord_succeeds[OF a] obtain g1
    where g1: "foldE (mergeCell w (wordVerdict results w)) (offsets (wd_length w)) g = Inr g1"
    by blast
  from mergeWord_cells[OF g1] have "map length g = map length g1" by simp
  from spansInGrid_shape[OF this b] have "spansInGrid g1 ws" .
  from Cons.IH[OF this] g1 show ?case by (simp add: mergeResults_Cons)
qed

lemma answerStep_None:
  "cellAt g (spanRow (wd_direction w) (row_index w) i)
            (spanCol (wd_direction w) (col_index w) i) = None \<Longrightarrow>
   answerStep g w i acc = Inl TypeError"
  by (simp add: answerStep_def Let_def)

lemma answerStep_Some:
  "cellAt g (spanRow (wd_direction w) (row_index w) i)
            (spanCol (wd_direction w) (col_index w) i) = Some cell \<Longrightarrow>
   answerStep g w i acc = Inr (acc @ (if cell_char cell = [] then '' '' else cell_char cell))"
  by (simp add: answerStep_def Let_def)

lemma answerWord_inGrid:
  assumes "foldE (answerStep g w) js acc = Inr a"
  shows "\<forall>i\<in>set js. cellAt g (spanRow (wd_direction w) (row_index w) i)
                                  (spanCol (wd_direction w) (col_index w) i) \<noteq> None"
  using assms
proof (induction js arbitrary: acc)
  case Nil
  then show ?case by simp
next
  case (Cons i js)
  show ?case
  proof (cases "cellAt g (spanRow (wd_direction w) (row_index w) i)
                         (spanCol (wd_direction w) (col_index w) i)")
    case None
    with Cons.prems show ?thesis by (simp add: answerStep_None)
  next
    case (Some cell)
    with Cons.prems have "foldE (answerStep g w) js
        (acc @ (if cell_char cell = [] then '' '' else cell_char cell)) = Inr a"
      by (simp add: answerStep_Some)
    from Cons.IH[OF this] Some show ?thesis by simp
  qed
qed

lemma answersPayload_inGrid:
  "answersPayload g ws = Inr payload \<Longrightarrow> spansInGrid g ws"
proof (induction ws arbitrary: payload)
  case Nil
  then show ?case by (simp add: spansInGrid_def)
next
  case (Cons w ws)
  from Cons.prems obtain a rest
    where a: "foldE (answerStep g w) (offsets (wd_length w)) [] = Inr a"
      and rest: "answersPayload g ws = Inr rest"
    by (auto split: sum.splits)
  from answerWord_inGrid[OF a] Cons.IH[OF rest] show ?case
    by (simp add: spansInGrid_Cons)
qed

lemma handleSubmit_merges:
  assumes "game st = Some gm" "answersPayload (grid st) (words gm) = Inr payload"
    "server payload = Some results"
  shows "mergeResults results (words gm) (grid st) = Inr (grid (handleSubmit server st))"
proof -
  from mergeResults_succeeds[OF answersPayload_inGrid[OF assms(2)]] obtain g'
    where g': "mergeResults results (words gm) (grid st) = Inr g'" by blast
  have "grid (handleSubmit server st) = g'"
    using assms g' by (simp add: handleSubmit_def)
  with g' show ?thesis by simp
qed

lemma helloGrid_init: "initializeGrid helloGame = Inr helloGrid"
  by (simp add: initializeGrid_def blankGrid_def validArrayLength_def helloGame_def helloWord_def
      hatWord_def offsets_def markCell_def cellAt_def at_index_def setCell_def spanRow_def
      spanCol_def emptyCell_def helloGrid_def activeCell_def Let_def eval_nat_numeral upt_rec)


lemmas play_eval =
  mergeResults_def mergeCell_def flagCell_def wordVerdict_def answerStep_def
  offsets_def cellAt_def at_index_def setCell_def spanRow_def spanCol_def Let_def
  eval_nat_numeral upt_rec

lemma hello_payload:
  "answersPayload helloGrid [helloWord, hatWord] =
     Inr [\<lparr>ans_word_id = ''w1'', user_answer = ''     ''\<rparr>,
          \<lparr>ans_word_id = ''w2'', user_answer = ''   ''\<rparr>]"
  by (simp add: play_eval helloGrid_def helloWord_def hatWord_def activeCell_def emptyCell_def)

lemma hatWrong_payload:
  "answersPayload hatWrongGrid [helloWord, hatWord] =
     Inr [\<lparr>ans_word_id = ''w1'', user_answer = ''     ''\<rparr>,
          \<lparr>ans_word_id = ''w2'', user_answer = ''   ''\<rparr>]"
  by (simp add: play_eval hatWrongGrid_def helloWord_def hatWord_def activeCell_def emptyCell_def)

lemma hatWrong_merge:
  "mergeResults [\<lparr>word_id = ''w1'', is_correct = True\<rparr>, \<lparr>word_id = ''w2'', is_correct = False\<rparr>]
     [helloWord, hatWord] helloGrid = Inr hatWrongGrid"
  by (simp add: play_eval helloGrid_def hatWrongGrid_def helloWord_def hatWord_def
        activeCell_def emptyCell_def)

lemma allRight_merge:
  "mergeResults [\<lparr>word_id = ''w1'', is_correct = True\<rparr>, \<lparr>word_id = ''w2'', is_correct = True\<rparr>]
     [helloWord, hatWord] hatWrongGrid = Inr hatWrongGrid"
  by (simp add: play_eval hatWrongGrid_def helloWord_def hatWord_def
        activeCell_def emptyCell_def)

lemma handleSubmit_ok:
  assumes "game st = Some gm" "answersPayload (grid st) (words gm) = Inr payload"
    "server payload = Some results" "mergeResults results (words gm) (grid st) = Inr g'"
  shows "handleSubmit server st =
     (if list_all is_correct results
      then st\<lparr>grid := g', isPaused := True, isFinished := True, submitting := False\<rparr>
      else st\<lparr>grid := g', submitting := False\<rparr>)"
  using assms by (simp add: handleSubmit_def)

lemma hatWrong_submit:
  "handleSubmit hatWrongServer helloState = helloState\<lparr>grid := hatWrongGrid\<rparr>"
proof -
  have "handleSubmit hatWrongServer helloState =
     (if list_all is_correct
           [\<lparr>word_id = ''w1'', is_correct = True\<rparr>, \<lparr>word_id = ''w2'', is_correct = False\<rparr>]
      then helloState\<lparr>grid := hatWrongGrid, isPaused := True, isFinished := True, submitting := False\<rparr>
      else helloState\<lparr>grid := hatWrongGrid, submitting := False\<rparr>)"
  proof (rule handleSubmit_ok)
    show "game helloState = Some helloGame" by (simp add: helloState_def)
    show "answersPayload (grid helloState) (words helloGame) =
        Inr [\<lparr>ans_word_id = ''w1'', user_answer = ''     ''\<rparr>,
             \<lparr>ans_word_id = ''w2'', user_answer = ''   ''\<rparr>]"
      unfolding helloState_def helloGame_def
      by (simp add: hello_payload del: answersPayload.simps)
    show "hatWrongServer [\<lparr>ans_word_id = ''w1'', user_answer = ''     ''\<rparr>,
             \<lparr>ans_word_id = ''w2'', user_answer = ''   ''\<rparr>] =
        Some [\<lparr>word_id = ''w1'', is_correct = True\<rparr>, \<lparr>word_id = ''w2'', is_correct = False\<rparr>]"
      by (simp add: hatWrongServer_def)
    show "mergeResults [\<lparr>word_id = ''w1'', is_correct = True\<rparr>, \<lparr>word_id = ''w2'', is_correct = False\<rparr>]
        (words helloGame) (grid helloState) = Inr hatWrongGrid"
      unfolding helloState_def helloGame_def by (simp add: hatWrong_merge)
  qed
  then show ?thesis by (simp add: helloState_def)
qed

lemma allRight_resubmit:
  "handleSubmit allRightServer (helloState\<lparr>grid := hatWrongGrid\<rparr>) =
     helloState\<lparr>grid := hatWrongGrid, isPaused := True, isFinished := True\<rparr>"
proof -
  have "handleSubmit allRightServer (helloState\<lparr>grid := hatWrongGrid\<rparr>) =
     (if list_all is_correct
           [\<lparr>word_id = ''w1'', is_correct = True\<rparr>, \<lparr>word_id = ''w2'', is_correct = True\<rparr>]
      then helloState\<lparr>grid := hatWrongGrid\<rparr>\<lparr>grid := hatWrongGrid, isPaused := True,
              isFinished := True, submitting := False\<rparr>
      else helloState\<lparr>grid := hatWrongGrid\<rparr>\<lparr>grid := hatWrongGrid, submitting := False\<rparr>)"
  proof (rule handleSubmit_ok)
    show "game (helloState\<lparr>grid := hatWrongGrid\<rparr>) = Some helloGame" by (simp add: helloState_def)
    show "answersPayload (grid (helloState\<lparr>grid := hatWrongGrid\<rparr>)) (words helloGame) =
        Inr [\<lparr>ans_word_id = ''w1'', user_answer = ''     ''\<rparr>,
             \<lparr>ans_word_id = ''w2'', user_answer = ''   ''\<rparr>]"
      unfolding helloState_def helloGame_def
      by (simp add: hatWrong_payload del: answersPayload.simps)
    show "allRightServer [\<lparr>ans_word_id = ''w1'', user_answer = ''     ''\<rparr>,
             \<lparr>ans_word_id = ''w2'', user_answer = ''   ''\<rparr>] =
        Some [\<lparr>word_id = ''w1'', is_correct = True\<rparr>, \<lparr>word_id = ''w2'', is_correct = True\<rparr>]"
      by (simp add: allRightServer_def)
    show "mergeResults [\<lparr>word_id = ''w1'', is_correct = True\<rparr>, \<lparr>word_id = ''w2'', is_correct = True\<rparr>]
        (words helloGame) (grid (helloState\<lparr>grid := hatWrongGrid\<rparr>)) = Inr hatWrongGrid"
      unfolding helloState_def helloGame_def by (simp add: allRight_merge)
  qed
  then show ?thesis by (simp add: helloState_def)
qed

lemma handleSubmit_cells:
  assumes "game st = Some gm" "answersPayload (grid st) (words gm) = Inr payload"
    "server payload = Some results"
  shows "cellAt (grid (handleSubmit server st)) r c =
           map_option (mergedCell results (words gm) r c) (cellAt (grid st) r c)"
  using mergeResults_cells[OF handleSubmit_merges[where server = server, OF assms]] by simp

lemma spansInGrid_set: "set ws' = set ws \<Longrightarrow> spansInGrid g ws' = spansInGrid g ws"
  by (simp add: spansInGrid_def)

lemma mergedCell_set:
  "set ws' = set ws \<Longrightarrow> mergedCell results ws' r c cell = mergedCell results ws r c cell"
  by (simp add: mergedCell_closed)

lemma mergeResults_order:
  assumes "set ws' = set ws" "mergeResults results ws g = Inr g'"
  shows "mergeResults results ws' g = Inr g'"
proof -
  have "spansInGrid g ws"
    unfolding spansInGrid_def
  proof (intro ballI)
    fix w i assume w: "w \<in> set ws" and i: "i \<in> set (offsets (wd_length w))"
    let ?r = "spanRow (wd_direction w) (row_index w) i"
    let ?c = "spanCol (wd_direction w) (col_index w) i"
    show "cellAt g ?r ?c \<noteq> None"
    proof
      assume none: "cellAt g ?r ?c = None"
      from w obtain pre post where ws: "ws = pre @ w # post" by (meson split_list)
      from i obtain js ks where off: "offsets (wd_length w) = js @ i # ks" by (meson split_list)
      have "mergeResults results ws g =
          (case mergeResults results pre g of Inl e \<Rightarrow> Inl e
           | Inr g1 \<Rightarrow> mergeResults results (w # post) g1)"
        unfolding ws mergeResults_def by (rule foldE_append)
      with assms(2) obtain g1 where g1: "mergeResults results pre g = Inr g1"
        and r1: "mergeResults results (w # post) g1 = Inr g'"
        by (auto split: sum.splits)
      from r1 obtain g2
        where g2: "foldE (mergeCell w (wordVerdict results w)) (offsets (wd_length w)) g1 = Inr g2"
        by (auto simp: mergeResults_Cons split: sum.splits)
      have "foldE (mergeCell w (wordVerdict results w)) (offsets (wd_length w)) g1 =
          (case foldE (mergeCell w (wordVerdict results w)) js g1 of Inl e \<Rightarrow> Inl e
           | Inr g3 \<Rightarrow> foldE (mergeCell w (wordVerdict results w)) (i # ks) g3)"
        unfolding off by (rule foldE_append)
      with g2 obtain g3 where g3: "foldE (mergeCell w (wordVerdict results w)) js g1 = Inr g3"
        and r3: "foldE (mergeCell w (wordVerdict results w)) (i # ks) g3 = Inr g2"
        by (auto split: sum.splits)
      have "map length g3 = map length g"
        using mergeWord_cells[OF g3] mergeResults_cells[OF g1] by simp
      from cellAt_shape_None[OF this] none have "cellAt g3 ?r ?c = None" by simp
      then have "mergeCell w (wordVerdict results w) i g3 = Inl TypeError"
        by (simp add: mergeCell_unfold)
      with r3 show False by simp
    qed
  qed
  then have "spansInGrid g ws'" by (simp only: spansInGrid_set[OF assms(1)])
  from mergeResults_succeeds[OF this] obtain g'' where g'': "mergeResults results ws' g = Inr g''" ..
  have "g'' = g'"
  proof (rule grid_eqI)
    show "map length g'' = map length g'"
      using mergeResults_cells[OF g''] mergeResults_cells[OF assms(2)] by simp
  next
    fix r c
    show "cellAt g'' r c = cellAt g' r c"
      using mergeResults_cells[OF g''] mergeResults_cells[OF assms(2)]
      by (cases "cellAt g r c") (simp_all add: mergedCell_set[OF assms(1)])
  qed
  with g'' show ?thesis by simp
qed

text \<open>
  Claim C3, as amended. When the request could be built and the server answered, the merge
  pass of \<open>handleSubmit\<close> leaves every cell that no word covers as it was and sets the
  flag of every covered cell: to false if some word covering it is incorrect in the
  results (or has no result), or if the flag was already false before the pass; to true
  if every covering word is correct and the flag was not false before. The outcome does
  not depend on the order of the words: any list with the same words gives the same grid.
\<close>

theorem handleSubmit_merge_flags:
  assumes "game st = Some gm" "answersPayload (grid st) (words gm) = Inr payload"
    "server payload = Some results"
  shows "(\<forall>r c cell. cellAt (grid st) r c = Some cell \<longrightarrow>
            cellAt (grid (handleSubmit server st)) r c =
              Some (if \<exists>w\<in>set (words gm). wd_covers w r c
                    then cell\<lparr>isCorrect := Some (isCorrect cell \<noteq> Some False \<and>
                           (\<forall>w\<in>set (words gm). wd_covers w r c \<longrightarrow> wordVerdict results w))\<rparr>
                    else cell)) \<and>
         (\<forall>ws'. set ws' = set (words gm) \<longrightarrow>
            mergeResults results ws' (grid st) = Inr (grid (handleSubmit server st)))"
proof (intro conjI allI impI)
  fix r c cell assume "cellAt (grid st) r c = Some cell"
  then show "cellAt (grid (handleSubmit server st)) r c =
              Some (if \<exists>w\<in>set (words gm). wd_covers w r c
                    then cell\<lparr>isCorrect := Some (isCorrect cell \<noteq> Some False \<and>
                           (\<forall>w\<in>set (words gm). wd_covers w r c \<longrightarrow> wordVerdict results w))\<rparr>
                    else cell)"
    using handleSubmit_cells[where server = server, OF assms, of r c] by (simp add: mergedCell_closed)
next
  fix ws' assume "set ws' = set (words gm)"
  then show "mergeResults results ws' (grid st) = Inr (grid (handleSubmit server st))"
    using handleSubmit_merges[where server = server, OF assms] by (rule mergeResults_order)
qed

theorem handleSubmit_merge_flags_witness:
  "game helloState = Some helloGame \<and>
   map_option isCorrect (cellAt (grid (handleSubmit hatWrongServer helloState)) 0 0) = Some (Some False) \<and>
   map_option isCorrect (cellAt (grid (handleSubmit hatWrongServer helloState)) 0 1) = Some (Some True) \<and>
   map_option isCorrect (cellAt (grid (handleSubmit hatWrongServer helloState)) 0 4) = Some (Some True) \<and>
   map_option isCorrect (cellAt (grid (handleSubmit hatWrongServer helloState)) 3 3) = Some None \<and>
   mergeResults [\<lparr>word_id = ''w1'', is_correct = True\<rparr>, \<lparr>word_id = ''w2'', is_correct = False\<rparr>]
      [hatWord, helloWord] helloGrid = Inr (grid (handleSubmit hatWrongServer helloState))"
proof -
  have g: "game helloState = Some helloGame" by (simp add: helloState_def)
  have p: "answersPayload (grid helloState) (words helloGame) =
        Inr [\<lparr>ans_word_id = ''w1'', user_answer = ''     ''\<rparr>,
             \<lparr>ans_word_id = ''w2'', user_answer = ''   ''\<rparr>]"
    unfolding helloState_def helloGame_def
    by (simp add: hello_payload del: answersPayload.simps)
  have s: "hatWrongServer [\<lparr>ans_word_id = ''w1'', user_answer = ''     ''\<rparr>,
             \<lparr>ans_word_id = ''w2'', user_answer = ''   ''\<rparr>] =
        Some [\<lparr>word_id = ''w1'', is_correct = True\<rparr>, \<lparr>word_id = ''w2'', is_correct = False\<rparr>]"
    by (simp add: hatWrongServer_def)
  note t = handleSubmit_merge_flags[where server = hatWrongServer, OF g p s]
  have o: "set [hatWord, helloWord] = set (words helloGame)"
    by (auto simp: helloGame_def)
  from t have "\<forall>ws'. set ws' = set (words helloGame) \<longrightarrow>
      mergeResults [\<lparr>word_id = ''w1'', is_correct = True\<rparr>, \<lparr>word_id = ''w2'', is_correct = False\<rparr>]
        ws' (grid helloState) = Inr (grid (handleSubmit hatWrongServer helloState))"
    by (rule conjunct2)
  from this[rule_format, OF o]
  have m: "mergeResults [\<lparr>word_id = ''w1'', is_correct = True\<rparr>, \<lparr>word_id = ''w2'', is_correct = False\<rparr>]
      [hatWord, helloWord] (grid helloState) = Inr (grid (handleSubmit hatWrongServer helloState))" .
  have cells:
     "map_option isCorrect (cellAt (grid (handleSubmit hatWrongServer helloState)) 0 0) = Some (Some False)"
     "map_option isCorrect (cellAt (grid (handleSubmit hatWrongServer helloState)) 0 1) = Some (Some True)"
     "map_option isCorrect (cellAt (grid (handleSubmit hatWrongServer helloState)) 0 4) = Some (Some True)"
     "map_option isCorrect (cellAt (grid (handleSubmit hatWrongServer helloState)) 3 3) = Some None"
    unfolding hatWrong_submit
    by (simp_all add: hatWrongGrid_def cellAt_def at_index_def activeCell_def emptyCell_def)
  from g m cells show ?thesis by (simp add: helloState_def)
qed

text \<open>
  Claim C3 as stated fails: after a check that found HAT incorrect, a second check that
  finds every word correct leaves the shared cell \<open>(0, 0)\<close> flagged false, although every
  word covering it is correct in the results of that pass.
\<close>

theorem handleSubmit_stale_flag_counterexample:
  "list_all (\<lambda>w. wordVerdict [\<lparr>word_id = ''w1'', is_correct = True\<rparr>, \<lparr>word_id = ''w2'', is_correct = True\<rparr>] w)
     (filter (\<lambda>w. wd_covers w 0 0) (words helloGame)) \<and>
   map_option isCorrect
     (cellAt (grid (handleSubmit allRightServer (handleSubmit hatWrongServer helloState))) 0 0)
     = Some (Some False)"
  unfolding hatWrong_submit allRight_resubmit
  by (simp add: helloState_def helloGame_def helloWord_def hatWord_def wd_covers_def
      wordVerdict_def hatWrongGrid_def cellAt_def at_index_def activeCell_def)

lemma find_append_list:
  "find P (xs @ ys) = (case find P xs of None \<Rightarrow> find P ys | Some x \<Rightarrow> Some x)"
  by (induction xs) simp_all

text \<open>
  Claim C10. A word with no entry in the results is merged exactly as an incorrect word:
  its verdict is false, the merge is the same as with an explicit incorrect entry added
  for it, and after \<open>handleSubmit\<close> every cell of its span is flagged false.
\<close>

theorem missing_result_counts_as_incorrect:
  assumes "find (\<lambda>r. word_id r = wd_id w) results = None"
  shows "\<not> wordVerdict results w \<and>
         mergeResults results ws g =
           mergeResults (results @ [\<lparr>word_id = wd_id w, is_correct = False\<rparr>]) ws g \<and>
         (game st = Some gm \<and> answersPayload (grid st) (words gm) = Inr payload \<and>
          server payload = Some results \<and> w \<in> set (words gm) \<longrightarrow>
            (\<forall>i\<in>set (offsets (wd_length w)).
               \<exists>cell. cellAt (grid (handleSubmit server st))
                         (spanRow (wd_direction w) (row_index w) i)
                         (spanCol (wd_direction w) (col_index w) i) = Some cell \<and>
                      isCorrect cell = Some False))"
proof (intro conjI impI ballI)
  show nv: "\<not> wordVerdict results w" using assms by (simp add: wordVerdict_def)
  have same: "wordVerdict (results @ [\<lparr>word_id = wd_id w, is_correct = False\<rparr>]) w' =
              wordVerdict results w'" for w'
  proof (cases "find (\<lambda>r. word_id r = wd_id w') results")
    case None
    then show ?thesis using assms
      by (cases "wd_id w' = wd_id w") (simp_all add: wordVerdict_def find_append_list)
  next
    case (Some a)
    then show ?thesis by (simp add: wordVerdict_def find_append_list)
  qed
  then show "mergeResults results ws g =
           mergeResults (results @ [\<lparr>word_id = wd_id w, is_correct = False\<rparr>]) ws g"
    by (simp add: mergeResults_def)
  fix i
  assume a: "game st = Some gm \<and> answersPayload (grid st) (words gm) = Inr payload \<and>
          server payload = Some results \<and> w \<in> set (words gm)"
    and i: "i \<in> set (offsets (wd_length w))"
  let ?r = "spanRow (wd_direction w) (row_index w) i"
  let ?c = "spanCol (wd_direction w) (col_index w) i"
  from a have gm: "game st = Some gm" and p: "answersPayload (grid st) (words gm) = Inr payload"
    and s: "server payload = Some results" and w: "w \<in> set (words gm)" by simp_all
  from answersPayload_inGrid[OF p] w i obtain cell0 where c0: "cellAt (grid st) ?r ?c = Some cell0"
    unfolding spansInGrid_def by blast
  have cov: "wd_covers w ?r ?c" using i by (auto simp: wd_covers_span)
  have "cellAt (grid (handleSubmit server st)) ?r ?c = Some (mergedCell results (words gm) ?r ?c cell0)"
    using handleSubmit_cells[where server = server, OF gm p s, of ?r ?c] c0 by simp
  moreover have "isCorrect (mergedCell results (words gm) ?r ?c cell0) = Some False"
    using cov w nv by (auto simp: mergedCell_closed)
  ultimately show "\<exists>cell. cellAt (grid (handleSubmit server st)) ?r ?c = Some cell \<and>
                      isCorrect cell = Some False"
    by blast
qed

theorem missing_result_counts_as_incorrect_witness:
  "find (\<lambda>r. word_id r = wd_id hatWord) [\<lparr>word_id = ''w1'', is_correct = True\<rparr>] = None \<and>
   \<not> wordVerdict [\<lparr>word_id = ''w1'', is_correct = True\<rparr>] hatWord \<and>
   (\<exists>cell. cellAt (grid (handleSubmit helloOnlyServer helloState)) 2 0 = Some cell \<and>
           isCorrect cell = Some False)"
proof -
  have f: "find (\<lambda>r. word_id r = wd_id hatWord) [\<lparr>word_id = ''w1'', is_correct = True\<rparr>] = None"
    by (simp add: hatWord_def)
  have g: "game helloState = Some helloGame" by (simp add: helloState_def)
  have p: "answersPayload (grid helloState) (words helloGame) =
        Inr [\<lparr>ans_word_id = ''w1'', user_answer = ''     ''\<rparr>,
             \<lparr>ans_word_id = ''w2'', user_answer = ''   ''\<rparr>]"
    unfolding helloState_def helloGame_def
    by (simp add: hello_payload del: answersPayload.simps)
  have s: "helloOnlyServer [\<lparr>ans_word_id = ''w1'', user_answer = ''     ''\<rparr>,
             \<lparr>ans_word_id = ''w2'', user_answer = ''   ''\<rparr>] =
        Some [\<lparr>word_id = ''w1'', is_correct = True\<rparr>]"
    by (simp add: helloOnlyServer_def)
  have w: "hatWord \<in> set (words helloGame)" by (simp add: helloGame_def)
  have i: "2 \<in> set (offsets (wd_length hatWord))"
    by (simp add: offsets_def hatWord_def eval_nat_numeral upt_rec)
  note t = missing_result_counts_as_incorrect[where server = helloOnlyServer and st = helloState
      and gm = helloGame and ws = "[]" and g = "[]"
      and payload = "[\<lparr>ans_word_id = ''w1'', user_answer = ''     ''\<rparr>,
             \<lparr>ans_word_id = ''w2'', user_answer = ''   ''\<rparr>]", OF f]
  from t have v: "\<not> wordVerdict [\<lparr>word_id = ''w1'', is_correct = True\<rparr>] hatWord"
    by (rule conjunct1)
  from g p s w have pre: "game helloState = Some helloGame \<and>
      answersPayload (grid helloState) (words helloGame) =
        Inr [\<lparr>ans_word_id = ''w1'', user_answer = ''     ''\<rparr>,
             \<lparr>ans_word_id = ''w2'', user_answer = ''   ''\<rparr>] \<and>
      helloOnlyServer [\<lparr>ans_word_id = ''w1'', user_answer = ''     ''\<rparr>,
             \<lparr>ans_word_id = ''w2'', user_answer = ''   ''\<rparr>] =
        Some [\<lparr>word_id = ''w1'', is_correct = True\<rparr>] \<and>
      hatWord \<in> set (words helloGame)"
    by (intro conjI)
  from t[THEN conjunct2, THEN conjunct2, THEN mp, OF pre, THEN bspec, OF i]
  have "\<exists>cell. cellAt (grid (handleSubmit helloOnlyServer helloState)) 2 0 = Some cell \<and>
           isCorrect cell = Some False"
    by (simp add: hatWord_def spanRow_def spanCol_def)
  with f v show ?thesis by (simp del: find.simps)
qed

lemma at_index_map: "at_index (map f xs) i = map_option f (at_index xs i)"
  by (auto simp: at_index_def nat_less_iff)

lemma cellAt_map:
  "cellAt (map (\<lambda>row. map f row) g) r c = map_option f (cellAt g r c)"
  by (cases "at_index g r") (simp_all add: cellAt_def at_index_map)

subsection \<open>Restart and the pause gate\<close>

text \<open>
  Claim C7. \<open>handleRestart\<close> sets the timer to zero, keeps the game (so the word list)
  and the shape of the grid, and in every cell empties the character and unsets the
  correctness flag while keeping \<open>isActive\<close>, the clue number and the word ids.
\<close>

theorem handleRestart_frame:
  "timer (handleRestart st) = 0 \<and> game (handleRestart st) = game st \<and>
   map length (grid (handleRestart st)) = map length (grid st) \<and>
   (\<forall>r c. (cellAt (grid (handleRestart st)) r c = None) = (cellAt (grid st) r c = None)) \<and>
   (\<forall>r c cell. cellAt (grid st) r c = Some cell \<longrightarrow>
      (\<exists>cell'. cellAt (grid (handleRestart st)) r c = Some cell' \<and>
         cell_char cell' = [] \<and> isCorrect cell' = None \<and>
         isActive cell' = isActive cell \<and> cell_number cell' = cell_number cell \<and>
         wordIds cell' = wordIds cell))"
  by (simp add: handleRestart_def cellAt_map comp_def)

theorem handleRestart_frame_witness:
  "cellAt (grid (helloState\<lparr>grid := hatWrongGrid, timer := 42, isFinished := True\<rparr>)) 0 0
      = Some (activeCell [] (Some 1) [''w1'', ''w2''] (Some False)) \<and>
   timer (handleRestart (helloState\<lparr>grid := hatWrongGrid, timer := 42, isFinished := True\<rparr>)) = 0 \<and>
   cellAt (grid (handleRestart (helloState\<lparr>grid := hatWrongGrid, timer := 42, isFinished := True\<rparr>))) 0 0
      = Some (activeCell [] (Some 1) [''w1'', ''w2''] None)"
proof -
  let ?st = "helloState\<lparr>grid := hatWrongGrid, timer := 42, isFinished := True\<rparr>"
  have c: "cellAt (grid ?st) 0 0 = Some (activeCell [] (Some 1) [''w1'', ''w2''] (Some False))"
    by (simp add: hatWrongGrid_def cellAt_def at_index_def)
  note t = handleRestart_frame[of ?st]
  from t have tm: "timer (handleRestart ?st) = 0" by (rule conjunct1)
  from t have "\<forall>r c cell. cellAt (grid ?st) r c = Some cell \<longrightarrow>
      (\<exists>cell'. cellAt (grid (handleRestart ?st)) r c = Some cell' \<and>
         cell_char cell' = [] \<and> isCorrect cell' = None \<and>
         isActive cell' = isActive cell \<and> cell_number cell' = cell_number cell \<and>
         wordIds cell' = wordIds cell)"
    by (elim conjE)
  from this[rule_format, OF c] obtain cell'
    where c': "cellAt (grid (handleRestart ?st)) 0 0 = Some cell'"
      and f: "cell_char cell' = []" "isCorrect cell' = None" "isActive cell' = True"
        "cell_number cell' = Some 1" "wordIds cell' = [''w1'', ''w2'']"
    by (auto simp: activeCell_def)
  from f have "cell' = activeCell [] (Some 1) [''w1'', ''w2''] None"
    by (cases cell') (simp add: activeCell_def)
  with c c' tm show ?thesis by simp
qed

text \<open>
  Claim C8. While the paused or the finished flag is set, \<open>handleInputChange\<close>,
  \<open>handleKeyDown\<close> and \<open>handleCellClick\<close> leave the whole state as it is, for every
  cell, input value and key.
\<close>

theorem gated_handlers_change_nothing:
  assumes "isPaused st \<or> isFinished st"
  shows "fst (handleInputChange toUpperCase st r c val) = st \<and>
         fst (handleKeyDown st key r c) = st \<and>
         fst (PlayCrossword_handleCellClick st r c) = st"
proof (intro conjI)
  show "fst (handleInputChange toUpperCase st r c val) = st"
    using assms by (cases "cellAt (grid st) r c") (auto simp: handleInputChange_def)
  show "fst (handleKeyDown st key r c) = st"
    using assms by (auto simp: handleKeyDown_def)
  show "fst (PlayCrossword_handleCellClick st r c) = st"
    using assms by (cases "cellAt (grid st) r c") (auto simp: PlayCrossword_handleCellClick_def)
qed

theorem gated_handlers_change_nothing_witness:
  "isPaused (helloState\<lparr>isPaused := True\<rparr>) \<and>
   fst (handleInputChange (\<lambda>s. s) (helloState\<lparr>isPaused := True\<rparr>) 0 0 ''h'')
     = helloState\<lparr>isPaused := True\<rparr> \<and>
   fst (handleKeyDown (helloState\<lparr>isPaused := True\<rparr>) ''ArrowRight'' 0 0)
     = helloState\<lparr>isPaused := True\<rparr> \<and>
   fst (PlayCrossword_handleCellClick (helloState\<lparr>isPaused := True\<rparr>) 0 1)
     = helloState\<lparr>isPaused := True\<rparr>"
proof -
  have p: "isPaused (helloState\<lparr>isPaused := True\<rparr>) \<or> isFinished (helloState\<lparr>isPaused := True\<rparr>)"
    by simp
  from gated_handlers_change_nothing[OF p, of "\<lambda>s. s" 0 0 "''h''" "''ArrowRight''"]
    gated_handlers_change_nothing[OF p, of "\<lambda>s. s" 0 1 "''h''" "''ArrowRight''"]
  show ?thesis by simp
qed

subsection \<open>Grid construction\<close>

lemma gridShape_cellAt:
  assumes "gridShape g nrows ncols"
  shows "cellAt g r c \<noteq> None \<longleftrightarrow> 0 \<le> r \<and> r < nrows \<and> 0 \<le> c \<and> c < ncols"
proof -
  from assms have l: "length g = nat nrows" and rw: "\<And>n. n < length g \<Longrightarrow> length (g ! n) = nat ncols"
    by (simp_all add: gridShape_def)
  show ?thesis
  proof (cases "0 \<le> r \<and> nat r < length g")
    case True
    with rw[of "nat r"] l show ?thesis unfolding cellAt_None_iff by auto
  next
    case False
    with l show ?thesis unfolding cellAt_None_iff by auto
  qed
qed

lemma gridShape_map_length:
  "gridShape g nrows ncols \<Longrightarrow> map length g' = map length g \<Longrightarrow> gridShape g' nrows ncols"
proof -
  assume s: "gridShape g nrows ncols" and m: "map length g' = map length g"
  from m have l: "length g' = length g" by (metis length_map)
  have "length row = nat ncols" if "row \<in> set g'" for row
  proof -
    from that obtain n where n: "n < length g'" "row = g' ! n" by (metis in_set_conv_nth)
    then have "length row = length (g ! n)" using m l by (metis nth_map)
    with s n l show ?thesis by (simp add: gridShape_def)
  qed
  with s l show ?thesis by (simp add: gridShape_def)
qed

lemma markCell_unfold:
  "markCell data word i g =
     (if spanRow (wd_direction word) (row_index word) i < rows data \<and>
         spanCol (wd_direction word) (col_index word) i < cols data
      then (case cellAt g (spanRow (wd_direction word) (row_index word) i)
                          (spanCol (wd_direction word) (col_index word) i) of
              None \<Rightarrow> Inl TypeError
            | Some old \<Rightarrow>
                Inr (setCell g (spanRow (wd_direction word) (row_index word) i)
                               (spanCol (wd_direction word) (col_index word) i) (markedBy word i old)))
      else Inr g)"
  by (cases "cellAt g (spanRow (wd_direction word) (row_index word) i)
                      (spanCol (wd_direction word) (col_index word) i)")
     (simp_all add: markCell_def markedBy_def Let_def)

lemma span_nonneg:
  "0 \<le> r \<Longrightarrow> 0 \<le> i \<Longrightarrow> 0 \<le> spanRow dir r i" "0 \<le> c \<Longrightarrow> 0 \<le> i \<Longrightarrow> 0 \<le> spanCol dir c i"
  by (simp_all add: spanRow_def spanCol_def)

lemma span_inj:
  "spanRow dir r i = spanRow dir r j \<and> spanCol dir c i = spanCol dir c j \<longleftrightarrow> i = j"
  by (cases dir) (auto simp: spanRow_def spanCol_def)

lemma markWord_cells:
  assumes "gridShape g (rows data) (cols data)" "0 \<le> row_index w" "0 \<le> col_index w"
    "\<forall>i\<in>set js. 0 \<le> i" "distinct js"
  shows "\<exists>g'. foldE (markCell data w) js g = Inr g' \<and> map length g' = map length g \<and>
           (\<forall>r c. cellAt g' r c =
              map_option (\<lambda>cell.
                 case find (\<lambda>i. r = spanRow (wd_direction w) (row_index w) i \<and>
                                 c = spanCol (wd_direction w) (col_index w) i) js of
                   None \<Rightarrow> cell
                 | Some i \<Rightarrow> markedBy w i cell) (cellAt g r c))"
  using assms
proof (induction js arbitrary: g)
  case Nil
  then show ?case by (simp add: option.map_ident)
next
  case (Cons i js)
  let ?ri = "spanRow (wd_direction w) (row_index w) i"
  let ?ci = "spanCol (wd_direction w) (col_index w) i"
  let ?P = "\<lambda>r c j. r = spanRow (wd_direction w) (row_index w) j \<and>
                     c = spanCol (wd_direction w) (col_index w) j"
  from Cons.prems have i0: "0 \<le> i" and js0: "\<forall>j\<in>set js. 0 \<le> j" and inotin: "i \<notin> set js"
    and dj: "distinct js" by simp_all
  have nn: "0 \<le> ?ri" "0 \<le> ?ci" using Cons.prems(2,3) i0 by (simp_all add: span_nonneg)
  have nofind: "find (?P ?ri ?ci) js = None"
    using inotin by (auto simp: find_None_iff span_inj)
  show ?case
  proof (cases "?ri < rows data \<and> ?ci < cols data")
    case True
    with nn gridShape_cellAt[OF Cons.prems(1), of ?ri ?ci] obtain old
      where old: "cellAt g ?ri ?ci = Some old" by auto
    let ?g1 = "setCell g ?ri ?ci (markedBy w i old)"
    have step: "markCell data w i g = Inr ?g1" using True old by (simp add: markCell_unfold)
    have sh1: "gridShape ?g1 (rows data) (cols data)"
      using gridShape_map_length[OF Cons.prems(1) shape_setCell] .
    from Cons.IH[OF sh1 Cons.prems(2,3) js0 dj] obtain g'
      where g': "foldE (markCell data w) js ?g1 = Inr g'" and sh: "map length g' = map length ?g1"
        and cells: "\<And>r c. cellAt g' r c =
              map_option (\<lambda>cell. case find (?P r c) js of None \<Rightarrow> cell
                 | Some j \<Rightarrow> markedBy w j cell) (cellAt ?g1 r c)"
      by blast
    have "cellAt g' r c = map_option (\<lambda>cell. case find (?P r c) (i # js) of None \<Rightarrow> cell
                 | Some j \<Rightarrow> markedBy w j cell) (cellAt g r c)" for r c
    proof (cases "r = ?ri \<and> c = ?ci")
      case True
      then show ?thesis using cells[of r c] old nofind by (simp add: cellAt_setCell[OF old])
    next
      case False
      then show ?thesis using cells[of r c] by (auto simp: cellAt_setCell[OF old])
    qed
    with g' sh step show ?thesis by (simp add: shape_setCell)
  next
    case False
    then have step: "markCell data w i g = Inr g" by (auto simp: markCell_unfold)
    from False nn gridShape_cellAt[OF Cons.prems(1), of ?ri ?ci]
    have out: "cellAt g ?ri ?ci = None" by auto
    from Cons.IH[OF Cons.prems(1,2,3) js0 dj] obtain g'
      where g': "foldE (markCell data w) js g = Inr g'" and sh: "map length g' = map length g"
        and cells: "\<And>r c. cellAt g' r c =
              map_option (\<lambda>cell. case find (?P r c) js of None \<Rightarrow> cell
                 | Some j \<Rightarrow> markedBy w j cell) (cellAt g r c)"
      by blast
    have "cellAt g' r c = map_option (\<lambda>cell. case find (?P r c) (i # js) of None \<Rightarrow> cell
                 | Some j \<Rightarrow> markedBy w j cell) (cellAt g r c)" for r c
    proof (cases "r = ?ri \<and> c = ?ci")
      case True
      then show ?thesis using cells[of r c] out by simp
    next
      case False
      then show ?thesis using cells[of r c] by auto
    qed
    with g' sh step show ?thesis by simp
  qed
qed


lemma offsets_props: "distinct (offsets n)" "\<forall>i\<in>set (offsets n). 0 \<le> i"
  by (simp_all add: offsets_def distinct_map)

lemma markedCell_Cons:
  "markedCell (w # ws) r c cell =
     markedCell ws r c
       (case find (\<lambda>i. r = spanRow (wd_direction w) (row_index w) i \<and>
                        c = spanCol (wd_direction w) (col_index w) i) (offsets (wd_length w)) of
          None \<Rightarrow> cell
        | Some i \<Rightarrow> markedBy w i cell)"
  by (simp add: markedCell_def)

lemma markWords_cells:
  assumes "gridShape g (rows data) (cols data)"
    "\<forall>w\<in>set ws. 0 \<le> row_index w \<and> 0 \<le> col_index w"
  shows "\<exists>g'. foldE (\<lambda>word. foldE (markCell data word) (offsets (wd_length word))) ws g = Inr g' \<and>
           map length g' = map length g \<and>
           (\<forall>r c. cellAt g' r c = map_option (markedCell ws r c) (cellAt g r c))"
  using assms
proof (induction ws arbitrary: g)
  case Nil
  then show ?case by (simp add: markedCell_def option.map_ident)
next
  case (Cons w ws)
  from Cons.prems(2) have w: "0 \<le> row_index w" "0 \<le> col_index w"
    and rest: "\<forall>w\<in>set ws. 0 \<le> row_index w \<and> 0 \<le> col_index w" by simp_all
  from markWord_cells[OF Cons.prems(1) w offsets_props(2) offsets_props(1), of "wd_length w"]
  obtain g1 where g1: "foldE (markCell data w) (offsets (wd_length w)) g = Inr g1"
    and sh1: "map length g1 = map length g"
    and c1: "\<And>r c. cellAt g1 r c =
              map_option (\<lambda>cell.
                 case find (\<lambda>i. r = spanRow (wd_direction w) (row_index w) i \<and>
                                 c = spanCol (wd_direction w) (col_index w) i) (offsets (wd_length w)) of
                   None \<Rightarrow> cell
                 | Some i \<Rightarrow> markedBy w i cell) (cellAt g r c)"
    by blast
  from gridShape_map_length[OF Cons.prems(1) sh1] have shape1: "gridShape g1 (rows data) (cols data)" .
  from Cons.IH[OF shape1 rest] obtain g'
    where g': "foldE (\<lambda>word. foldE (markCell data word) (offsets (wd_length word))) ws g1 = Inr g'"
      and sh: "map length g' = map length g1"
      and c2: "\<And>r c. cellAt g' r c = map_option (markedCell ws r c) (cellAt g1 r c)"
    by blast
  have "cellAt g' r c = map_option (markedCell (w # ws) r c) (cellAt g r c)" for r c
    unfolding c2 c1 by (cases "cellAt g r c") (simp_all add: markedCell_Cons)
  with g' g1 sh sh1 show ?case by simp
qed

lemma find_span_None:
  "find (\<lambda>i. r = spanRow (wd_direction w) (row_index w) i \<and>
              c = spanCol (wd_direction w) (col_index w) i) (offsets (wd_length w)) = None
     \<longleftrightarrow> \<not> wd_covers w r c"
  by (auto simp: find_None_iff wd_covers_span)

lemma markedCell_fields:
  "isActive (markedCell ws r c cell) = (isActive cell \<or> (\<exists>w\<in>set ws. wd_covers w r c)) \<and>
   wordIds (markedCell ws r c cell) = wordIds cell @ map wd_id (filter (\<lambda>w. wd_covers w r c) ws) \<and>
   cell_char (markedCell ws r c cell) = cell_char cell \<and>
   isCorrect (markedCell ws r c cell) = isCorrect cell"
proof (induction ws arbitrary: cell)
  case Nil
  then show ?case by (simp add: markedCell_def)
next
  case (Cons w ws)
  show ?case
  proof (cases "find (\<lambda>i. r = spanRow (wd_direction w) (row_index w) i \<and>
              c = spanCol (wd_direction w) (col_index w) i) (offsets (wd_length w))")
    case None
    then have "\<not> wd_covers w r c" by (simp add: find_span_None)
    with None show ?thesis by (simp add: markedCell_Cons Cons.IH)
  next
    case (Some i)
    then have "wd_covers w r c" using find_span_None[of r w c] by simp
    with Some show ?thesis by (simp add: markedCell_Cons Cons.IH markedBy_def)
  qed
qed

lemma blankGrid_shape:
  "blankGrid nrows ncols = Inr g \<Longrightarrow>
     gridShape g nrows ncols \<and> (\<forall>r c cell. cellAt g r c = Some cell \<longrightarrow> cell = emptyCell)"
  by (auto simp: blankGrid_def gridShape_def cellAt_Some_iff split: if_splits)

text \<open>
  Claim C9. For words with non-negative origins, \<open>initializeGrid\<close> either fails on the
  array allocation (a row or column count that is no array length) or returns a grid of
  exactly \<open>rows\<close> x \<open>cols\<close> cells, in which a cell is active exactly when a word's span
  covers it, and holds the ids of the words covering it in word order. Offsets of a span
  beyond the grid are skipped: they are no cells of the result, and the words that have
  them are not rejected.
\<close>

theorem initializeGrid_stays_in_grid:
  assumes "\<forall>w\<in>set (words data). 0 \<le> row_index w \<and> 0 \<le> col_index w"
  shows "if validArrayLength (rows data) \<and> (rows data = 0 \<or> validArrayLength (cols data))
         then \<exists>g. initializeGrid data = Inr g \<and>
                length g = nat (rows data) \<and> (\<forall>row\<in>set g. length row = nat (cols data)) \<and>
                (\<forall>r c cell. cellAt g r c = Some cell \<longrightarrow>
                   r < rows data \<and> c < cols data \<and>
                   (isActive cell \<longleftrightarrow> (\<exists>w\<in>set (words data). wd_covers w r c)) \<and>
                   wordIds cell = map wd_id (filter (\<lambda>w. wd_covers w r c) (words data)))
         else initializeGrid data = Inl RangeError"
proof (cases "validArrayLength (rows data) \<and> (rows data = 0 \<or> validArrayLength (cols data))")
  case False
  then have "blankGrid (rows data) (cols data) = Inl RangeError"
    by (auto simp: blankGrid_def validArrayLength_def)
  with False show ?thesis by (simp add: initializeGrid_def)
next
  case True
  then obtain g0 where g0: "blankGrid (rows data) (cols data) = Inr g0"
    by (auto simp: blankGrid_def validArrayLength_def)
  from blankGrid_shape[OF g0] have sh0: "gridShape g0 (rows data) (cols data)"
    and e0: "\<And>r c cell. cellAt g0 r c = Some cell \<Longrightarrow> cell = emptyCell" by blast+
  from markWords_cells[OF sh0 assms] obtain g
    where g: "foldE (\<lambda>word. foldE (markCell data word) (offsets (wd_length word))) (words data) g0 = Inr g"
      and sh: "map length g = map length g0"
      and cells: "\<And>r c. cellAt g r c = map_option (markedCell (words data) r c) (cellAt g0 r c)"
    by blast
  have init: "initializeGrid data = Inr g" using g0 g by (simp add: initializeGrid_def)
  from gridShape_map_length[OF sh0 sh] have shg: "gridShape g (rows data) (cols data)" .
  have "r < rows data \<and> c < cols data \<and>
        (isActive cell \<longleftrightarrow> (\<exists>w\<in>set (words data). wd_covers w r c)) \<and>
        wordIds cell = map wd_id (filter (\<lambda>w. wd_covers w r c) (words data))"
    if c: "cellAt g r c = Some cell" for r c cell
  proof -
    from c cells[of r c] obtain cell0 where c0: "cellAt g0 r c = Some cell0"
      and eq: "cell = markedCell (words data) r c cell0" by (cases "cellAt g0 r c") simp_all
    from e0[OF c0] have "cell0 = emptyCell" .
    with eq markedCell_fields[of "words data" r c emptyCell]
    have "(isActive cell \<longleftrightarrow> (\<exists>w\<in>set (words data). wd_covers w r c)) \<and>
        wordIds cell = map wd_id (filter (\<lambda>w. wd_covers w r c) (words data))"
      by (simp add: emptyCell_def)
    moreover from gridShape_cellAt[OF shg, of r c] c have "r < rows data \<and> c < cols data" by simp
    ultimately show ?thesis by simp
  qed
  with init shg True show ?thesis by (auto simp: gridShape_def)
qed

lemma truncGrid_init: "initializeGrid truncGame = Inr truncGrid"
  by (simp add: initializeGrid_def blankGrid_def validArrayLength_def truncGame_def truncWord_def
      offsets_def markCell_def cellAt_def at_index_def setCell_def spanRow_def
      spanCol_def emptyCell_def truncGrid_def activeCell_def Let_def eval_nat_numeral upt_rec)

theorem initializeGrid_stays_in_grid_witness:
  "initializeGrid truncGame = Inr truncGrid \<and>
   length truncGrid = nat (rows truncGame) \<and>
   wd_covers truncWord 0 2 \<and> map_option isActive (cellAt truncGrid 0 2) = Some True \<and>
   wd_covers truncWord 0 4 \<and> cellAt truncGrid 0 4 = None"
proof -
  have nn: "\<forall>w\<in>set (words truncGame). 0 \<le> row_index w \<and> 0 \<le> col_index w"
    by (simp add: truncGame_def truncWord_def)
  have v: "validArrayLength (rows truncGame) \<and> (rows truncGame = 0 \<or> validArrayLength (cols truncGame))"
    by (simp add: truncGame_def validArrayLength_def)
  from initializeGrid_stays_in_grid[OF nn, unfolded if_P[OF v]] obtain g
    where g: "initializeGrid truncGame = Inr g" and l: "length g = nat (rows truncGame)"
      and cells: "\<forall>r c cell. cellAt g r c = Some cell \<longrightarrow>
                   r < rows truncGame \<and> c < cols truncGame \<and>
                   (isActive cell \<longleftrightarrow> (\<exists>w\<in>set (words truncGame). wd_covers w r c)) \<and>
                   wordIds cell = map wd_id (filter (\<lambda>w. wd_covers w r c) (words truncGame))"
    by blast
  from g have eq: "g = truncGrid" by (simp add: truncGrid_init)
  have c2: "cellAt truncGrid 0 2 = Some (activeCell [] None [''w1''] None)"
    by (simp add: truncGrid_def cellAt_def at_index_def)
  have cov: "wd_covers truncWord 0 2" "wd_covers truncWord 0 4"
    by (simp_all add: wd_covers_def truncWord_def)
  from cells[rule_format, of 0 2] c2 eq cov
  have "isActive (activeCell [] None [''w1''] None)"
    by (simp add: truncGame_def)
  then have a: "map_option isActive (cellAt truncGrid 0 2) = Some True" by (simp add: c2)
  have out: "cellAt truncGrid 0 4 = None"
  proof (cases "cellAt truncGrid 0 4")
    case None then show ?thesis .
  next
    case (Some cell)
    with cells[rule_format, of 0 4 cell] eq show ?thesis by (simp add: truncGame_def)
  qed
  from g eq l a cov out show ?thesis by simp
qed


subsection \<open>Focus navigation\<close>

lemma moveFocus_loop_stop:
  "found s \<or> 50 \<le> attempts s \<Longrightarrow> moveFocus_loop gm g dir step s = Inr s"
  by (subst moveFocus_loop.simps) auto

lemma advance_pos:
  "currR (if dir = Horizontal then s\<lparr>currC := currC s + step\<rparr> else s\<lparr>currR := currR s + step\<rparr>)
     = spanRow dir (currR s) step"
  "currC (if dir = Horizontal then s\<lparr>currC := currC s + step\<rparr> else s\<lparr>currR := currR s + step\<rparr>)
     = spanCol dir (currC s) step"
  "found (if dir = Horizontal then s\<lparr>currC := currC s + step\<rparr> else s\<lparr>currR := currR s + step\<rparr>)
     = found s"
  "attempts (if dir = Horizontal then s\<lparr>currC := currC s + step\<rparr> else s\<lparr>currR := currR s + step\<rparr>)
     = attempts s"
  by (cases dir; simp add: spanRow_def spanCol_def)+

lemma span_add:
  "spanRow dir (spanRow dir r a) b = spanRow dir r (a + b)"
  "spanCol dir (spanCol dir c a) b = spanCol dir c (a + b)"
  by (simp_all add: spanRow_def spanCol_def)

lemma moveFocus_loop_inv:
  assumes "moveFocus_loop gm g dir step s0 = Inr s" "0 \<le> attempts s0" "attempts s0 \<le> 50"
  shows "attempts s0 \<le> attempts s \<and> attempts s \<le> 50 \<and>
         (\<exists>k. 0 \<le> k \<and> k \<le> 50 - attempts s0 \<and>
              currR s = spanRow dir (currR s0) (k * step) \<and>
              currC s = spanCol dir (currC s0) (k * step)) \<and>
         (found s \<longrightarrow> found s0 \<or>
            (inBounds gm (currR s) (currC s) \<and>
             (\<exists>cell. cellAt g (currR s) (currC s) = Some cell \<and> isActive cell))) \<and>
         (\<not> found s \<longrightarrow> \<not> inBounds gm (currR s) (currC s) \<or> attempts s = 50)"
  using assms
proof (induction gm g dir step s0 arbitrary: s rule: moveFocus_loop.induct)
  case (1 gm g dir step s0)
  let ?x = "if dir = Horizontal then s0\<lparr>currC := currC s0 + step\<rparr> else s0\<lparr>currR := currR s0 + step\<rparr>"
  have zero: "spanRow dir (currR s0) (0 * step) = currR s0" "spanCol dir (currC s0) (0 * step) = currC s0"
    by (simp_all add: spanRow_def spanCol_def)
  show ?case
  proof (cases "\<not> found s0 \<and> attempts s0 < 50")
    case False
    then have "moveFocus_loop gm g dir step s0 = Inr s0" by (auto intro: moveFocus_loop_stop)
    with "1.prems" have "s = s0" by simp
    with "1.prems" zero False show ?thesis by (auto intro!: exI[where x = 0])
  next
    case go: True
    show ?thesis
    proof (cases "currR ?x < 0 \<or> gameRows gm \<le> currR ?x \<or> currC ?x < 0 \<or> gameCols gm \<le> currC ?x")
      case True
      with go have "moveFocus_loop gm g dir step s0 = Inr ?x"
        by (subst moveFocus_loop.simps) (simp add: Let_def)
      with "1.prems" have s: "s = ?x" by simp
      have "currR s = spanRow dir (currR s0) (1 * step)" "currC s = spanCol dir (currC s0) (1 * step)"
        "found s = found s0" "attempts s = attempts s0"
        unfolding s by (simp_all add: advance_pos)
      moreover have "\<not> inBounds gm (currR s) (currC s)"
        unfolding s using True by (auto simp: inBounds_def)
      ultimately show ?thesis using go "1.prems" by (auto intro!: exI[where x = 1])
    next
      case inb: False
      show ?thesis
      proof (cases "at_index g (currR ?x)")
        case None
        with go inb have "moveFocus_loop gm g dir step s0 = Inl TypeError"
          by (subst moveFocus_loop.simps) (simp add: Let_def)
        with "1.prems" show ?thesis by simp
      next
        case (Some row)
        let ?s2 = "(case at_index row (currC ?x) of None \<Rightarrow> ?x
              | Some cell \<Rightarrow> if isActive cell then ?x\<lparr>found := True\<rparr> else ?x)
             \<lparr>attempts := attempts s0 + 1\<rparr>"
        from go inb Some have unf: "moveFocus_loop gm g dir step s0 = moveFocus_loop gm g dir step ?s2"
          by (subst moveFocus_loop.simps) (simp add: Let_def)
        with "1.prems" have run: "moveFocus_loop gm g dir step ?s2 = Inr s" by simp
        have pos2: "currR ?s2 = spanRow dir (currR s0) step" "currC ?s2 = spanCol dir (currC s0) step"
          "attempts ?s2 = attempts s0 + 1"
          by (cases "at_index row (currC ?x)"; simp add: advance_pos)+
        have a2: "0 \<le> attempts ?s2" "attempts ?s2 \<le> 50" using go "1.prems" pos2 by simp_all
        note IH = "1.IH"[OF go refl inb Some run a2]
        from IH obtain k where k: "0 \<le> k" "k \<le> 50 - attempts ?s2"
          "currR s = spanRow dir (currR ?s2) (k * step)" "currC s = spanCol dir (currC ?s2) (k * step)"
          by blast
        have kk: "0 \<le> k + 1" "k + 1 \<le> 50 - attempts s0"
          "currR s = spanRow dir (currR s0) ((k + 1) * step)"
          "currC s = spanCol dir (currC s0) ((k + 1) * step)"
          using k pos2 by (simp_all add: span_add algebra_simps)
        have fnd: "inBounds gm (currR s) (currC s) \<and>
             (\<exists>cell. cellAt g (currR s) (currC s) = Some cell \<and> isActive cell)" if f: "found s"
        proof (cases "found ?s2")
          case False
          with IH f show ?thesis by blast
        next
          case True
          then have "moveFocus_loop gm g dir step ?s2 = Inr ?s2" by (rule moveFocus_loop_stop[OF disjI1])
          with run have s: "s = ?s2" by simp
          from True go obtain cell where cell: "at_index row (currC ?x) = Some cell" "isActive cell"
            by (cases "at_index row (currC ?x)") (auto simp: advance_pos split: if_splits)
          have p: "currR s = currR ?x" "currC s = currC ?x"
            unfolding s by (cases "at_index row (currC ?x)"; simp)+
          have "cellAt g (currR s) (currC s) = Some cell"
            unfolding p using Some cell by (simp add: cellAt_def)
          moreover have "inBounds gm (currR s) (currC s)"
            unfolding p using inb by (auto simp: inBounds_def)
          ultimately show ?thesis using cell by blast
        qed
        from IH have att: "attempts s0 \<le> attempts s" "attempts s \<le> 50" using pos2 by simp_all
        from IH have nf: "\<not> found s \<longrightarrow> \<not> inBounds gm (currR s) (currC s) \<or> attempts s = 50"
          by blast
        from att kk fnd nf show ?thesis by blast
      qed
    qed
  qed
qed


lemma moveFocus_loop_error:
  "moveFocus_loop gm g dir step s0 = Inl e \<Longrightarrow> e = TypeError"
proof (induction gm g dir step s0 rule: moveFocus_loop.induct)
  case (1 gm g dir step s0)
  let ?x = "if dir = Horizontal then s0\<lparr>currC := currC s0 + step\<rparr> else s0\<lparr>currR := currR s0 + step\<rparr>"
  show ?case
  proof (cases "\<not> found s0 \<and> attempts s0 < 50")
    case False
    then have "moveFocus_loop gm g dir step s0 = Inr s0" by (auto intro: moveFocus_loop_stop)
    with "1.prems" show ?thesis by simp
  next
    case go: True
    show ?thesis
    proof (cases "currR ?x < 0 \<or> gameRows gm \<le> currR ?x \<or> currC ?x < 0 \<or> gameCols gm \<le> currC ?x")
      case True
      with go have "moveFocus_loop gm g dir step s0 = Inr ?x"
        by (subst moveFocus_loop.simps) (simp add: Let_def)
      with "1.prems" show ?thesis by simp
    next
      case inb: False
      show ?thesis
      proof (cases "at_index g (currR ?x)")
        case None
        with go inb have "moveFocus_loop gm g dir step s0 = Inl TypeError"
          by (subst moveFocus_loop.simps) (simp add: Let_def)
        with "1.prems" show ?thesis by simp
      next
        case (Some row)
        from go inb Some have "moveFocus_loop gm g dir step s0 = moveFocus_loop gm g dir step
           ((case at_index row (currC ?x) of None \<Rightarrow> ?x
              | Some cell \<Rightarrow> if isActive cell then ?x\<lparr>found := True\<rparr> else ?x)
             \<lparr>attempts := attempts s0 + 1\<rparr>)"
          by (subst moveFocus_loop.simps) (simp add: Let_def)
        with "1.prems" "1.IH"[OF go refl inb Some] show ?thesis by simp
      qed
    qed
  qed
qed

lemma moveFocus_loop_no_error:
  "length g = nat (gameRows gm) \<Longrightarrow> \<exists>s. moveFocus_loop gm g dir step s0 = Inr s"
proof (induction gm g dir step s0 rule: moveFocus_loop.induct)
  case (1 gm g dir step s0)
  let ?x = "if dir = Horizontal then s0\<lparr>currC := currC s0 + step\<rparr> else s0\<lparr>currR := currR s0 + step\<rparr>"
  show ?case
  proof (cases "\<not> found s0 \<and> attempts s0 < 50")
    case False
    then have "moveFocus_loop gm g dir step s0 = Inr s0" by (auto intro: moveFocus_loop_stop)
    then show ?thesis by simp
  next
    case go: True
    show ?thesis
    proof (cases "currR ?x < 0 \<or> gameRows gm \<le> currR ?x \<or> currC ?x < 0 \<or> gameCols gm \<le> currC ?x")
      case True
      with go have "moveFocus_loop gm g dir step s0 = Inr ?x"
        by (subst moveFocus_loop.simps) (simp add: Let_def)
      then show ?thesis by simp
    next
      case inb: False
      then have "0 \<le> currR ?x \<and> currR ?x < int (length g)" using "1.prems" by auto
      then obtain row where Some: "at_index g (currR ?x) = Some row" by (auto simp: at_index_def)
      from go inb Some have "moveFocus_loop gm g dir step s0 = moveFocus_loop gm g dir step
           ((case at_index row (currC ?x) of None \<Rightarrow> ?x
              | Some cell \<Rightarrow> if isActive cell then ?x\<lparr>found := True\<rparr> else ?x)
             \<lparr>attempts := attempts s0 + 1\<rparr>)"
        by (subst moveFocus_loop.simps) (simp add: Let_def)
      with "1.IH"[OF go refl inb Some "1.prems"] show ?thesis by simp
    qed
  qed
qed

lemma moveFocus_loop_edge:
  assumes "\<not> inBounds gm (spanRow dir r step) (spanCol dir c step)"
  shows "\<exists>s. moveFocus_loop gm g dir step (scanStart r c) = Inr s \<and> \<not> found s"
proof -
  let ?s0 = "scanStart r c"
  let ?x = "if dir = Horizontal then ?s0\<lparr>currC := currC ?s0 + step\<rparr> else ?s0\<lparr>currR := currR ?s0 + step\<rparr>"
  have p: "currR ?x = spanRow dir r step" "currC ?x = spanCol dir c step" "\<not> found ?x"
    by (simp_all add: advance_pos) (simp_all add: scanStart_def)
  with assms have out: "currR ?x < 0 \<or> gameRows gm \<le> currR ?x \<or> currC ?x < 0 \<or> gameCols gm \<le> currC ?x"
    by (auto simp: inBounds_def)
  have go: "\<not> found ?s0 \<and> attempts ?s0 < 50" by (simp add: scanStart_def)
  from go out have "moveFocus_loop gm g dir step ?s0 = Inr ?x"
    by (subst moveFocus_loop.simps) (simp add: Let_def)
  with p show ?thesis by blast
qed


text \<open>
  Claim C4. The scan of \<open>moveFocus\<close> ends after at most 50 advances of the position,
  either by throwing (only when the grid has not the game's number of rows) or with
  a final position \<open>k\<close> steps from the start, \<open>k \<le> 50\<close>. If it found a cell, that cell
  is inside the bounds and active, and it becomes the selection and takes the focus.
  If it found none, the position has left the bounds or the 50 attempts are used up, and
  the state is unchanged. In particular, when the cell next to the start in the direction
  of travel is outside the bounds, nothing changes.
\<close>

theorem moveFocus_scan_bounded:
  assumes "dir = (case overrideDir of Some d \<Rightarrow> d | None \<Rightarrow> play_direction snap)"
  shows
    "((moveFocus_loop (game snap) (grid snap) dir step (scanStart r c) = Inl TypeError \<and>
       length (grid snap) \<noteq> nat (gameRows (game snap)) \<and>
       moveFocus snap r c step overrideDir st = (st, Some TypeError))
      \<or> (\<exists>s. moveFocus_loop (game snap) (grid snap) dir step (scanStart r c) = Inr s \<and>
            0 \<le> attempts s \<and> attempts s \<le> 50 \<and>
            (\<exists>k. 0 \<le> k \<and> k \<le> 50 \<and>
                 currR s = spanRow dir r (k * step) \<and> currC s = spanCol dir c (k * step)) \<and>
            (if found s
             then inBounds (game snap) (currR s) (currC s) \<and>
                  (\<exists>cell. cellAt (grid snap) (currR s) (currC s) = Some cell \<and> isActive cell) \<and>
                  moveFocus snap r c step overrideDir st =
                    (st\<lparr>selectedCell := Some (currR s, currC s),
                        focusRequest := Some (currR s, currC s)\<rparr>, None)
             else (\<not> inBounds (game snap) (currR s) (currC s) \<or> attempts s = 50) \<and>
                  moveFocus snap r c step overrideDir st = (st, None)))) \<and>
     (\<not> inBounds (game snap) (spanRow dir r step) (spanCol dir c step) \<longrightarrow>
        moveFocus snap r c step overrideDir st = (st, None))"
proof (intro conjI impI)
  let ?res = "moveFocus_loop (game snap) (grid snap) dir step (scanStart r c)"
  have mf: "moveFocus snap r c step overrideDir st =
      (case ?res of Inl e \<Rightarrow> (st, Some e)
       | Inr s \<Rightarrow> if found s
            then (st\<lparr>selectedCell := Some (currR s, currC s),
                      focusRequest := Some (currR s, currC s)\<rparr>, None)
            else (st, None))"
    unfolding moveFocus_def Let_def assms ..
  {
    assume "\<not> inBounds (game snap) (spanRow dir r step) (spanCol dir c step)"
    from moveFocus_loop_edge[OF this, of "grid snap"] obtain s
      where "?res = Inr s" "\<not> found s" by blast
    then show "moveFocus snap r c step overrideDir st = (st, None)" by (simp add: mf)
  }
  show "(?res = Inl TypeError \<and> length (grid snap) \<noteq> nat (gameRows (game snap)) \<and>
       moveFocus snap r c step overrideDir st = (st, Some TypeError))
      \<or> (\<exists>s. ?res = Inr s \<and>
            0 \<le> attempts s \<and> attempts s \<le> 50 \<and>
            (\<exists>k. 0 \<le> k \<and> k \<le> 50 \<and>
                 currR s = spanRow dir r (k * step) \<and> currC s = spanCol dir c (k * step)) \<and>
            (if found s
             then inBounds (game snap) (currR s) (currC s) \<and>
                  (\<exists>cell. cellAt (grid snap) (currR s) (currC s) = Some cell \<and> isActive cell) \<and>
                  moveFocus snap r c step overrideDir st =
                    (st\<lparr>selectedCell := Some (currR s, currC s),
                        focusRequest := Some (currR s, currC s)\<rparr>, None)
             else (\<not> inBounds (game snap) (currR s) (currC s) \<or> attempts s = 50) \<and>
                  moveFocus snap r c step overrideDir st = (st, None)))"
  proof (cases ?res)
    case (Inl e)
    from moveFocus_loop_error[OF Inl] have e: "e = TypeError" .
    have "length (grid snap) \<noteq> nat (gameRows (game snap))"
    proof
      assume "length (grid snap) = nat (gameRows (game snap))"
      from moveFocus_loop_no_error[OF this, of dir step "scanStart r c"] Inl show False by simp
    qed
    with Inl e show ?thesis by (simp add: mf)
  next
    case (Inr s)
    have a0: "0 \<le> attempts (scanStart r c)" "attempts (scanStart r c) \<le> 50"
      by (simp_all add: scanStart_def)
    note inv = moveFocus_loop_inv[OF Inr a0]
    from inv have att: "0 \<le> attempts s" "attempts s \<le> 50" by (simp_all add: scanStart_def)
    from inv obtain k where "0 \<le> k" "k \<le> 50 - attempts (scanStart r c)"
      "currR s = spanRow dir (currR (scanStart r c)) (k * step)"
      "currC s = spanCol dir (currC (scanStart r c)) (k * step)" by blast
    then have k: "\<exists>k. 0 \<le> k \<and> k \<le> 50 \<and>
                 currR s = spanRow dir r (k * step) \<and> currC s = spanCol dir c (k * step)"
      by (auto simp: scanStart_def)
    from inv have f: "found s \<Longrightarrow> inBounds (game snap) (currR s) (currC s) \<and>
                  (\<exists>cell. cellAt (grid snap) (currR s) (currC s) = Some cell \<and> isActive cell)"
      by (simp add: scanStart_def)
    from inv have nf: "\<not> found s \<Longrightarrow> \<not> inBounds (game snap) (currR s) (currC s) \<or> attempts s = 50"
      by blast
    have "if found s
             then inBounds (game snap) (currR s) (currC s) \<and>
                  (\<exists>cell. cellAt (grid snap) (currR s) (currC s) = Some cell \<and> isActive cell) \<and>
                  moveFocus snap r c step overrideDir st =
                    (st\<lparr>selectedCell := Some (currR s, currC s),
                        focusRequest := Some (currR s, currC s)\<rparr>, None)
             else (\<not> inBounds (game snap) (currR s) (currC s) \<or> attempts s = 50) \<and>
                  moveFocus snap r c step overrideDir st = (st, None)"
    proof (cases "found s")
      case True
      with f Inr show ?thesis by (simp add: mf)
    next
      case False
      with nf Inr show ?thesis by (simp add: mf)
    qed
    with Inr att k show ?thesis by blast
  qed
qed

theorem moveFocus_scan_bounded_witness:
  "Horizontal = (case Some Horizontal of Some d \<Rightarrow> d | None \<Rightarrow> play_direction helloState) \<and>
   \<not> inBounds (game helloState) (spanRow Horizontal 0 1) (spanCol Horizontal 4 1) \<and>
   moveFocus helloState 0 4 1 (Some Horizontal) helloState = (helloState, None) \<and>
   moveFocus helloState 0 0 1 (Some Horizontal) helloState =
     (helloState\<lparr>selectedCell := Some (0, 1), focusRequest := Some (0, 1)\<rparr>, None)"
proof -
  have d: "Horizontal = (case Some Horizontal of Some d \<Rightarrow> d | None \<Rightarrow> play_direction helloState)"
    by simp
  have e: "\<not> inBounds (game helloState) (spanRow Horizontal 0 1) (spanCol Horizontal 4 1)"
    by (simp add: inBounds_def helloState_def helloGame_def gameRows_def gameCols_def
        spanRow_def spanCol_def)
  from moveFocus_scan_bounded[OF d, where step = 1 and r = 0 and c = 4 and st = helloState] e
  have m: "moveFocus helloState 0 4 1 (Some Horizontal) helloState = (helloState, None)"
    by blast
  have f: "moveFocus helloState 0 0 1 (Some Horizontal) helloState =
     (helloState\<lparr>selectedCell := Some (0, 1), focusRequest := Some (0, 1)\<rparr>, None)"
    by (simp add: moveFocus_def moveFocus_loop.simps scanStart_def helloState_def helloGame_def
        helloGrid_def gameRows_def gameCols_def at_index_def activeCell_def Let_def)
  from d e m f show ?thesis by simp
qed

end
